theory Spec2Isabelle
  imports Complex_Main
begin

section \<open>Values, rows and errors\<close>

text \<open>
  The engine of \<^verbatim>\<open>transaction_database.py\<close> stores rows as Python dictionaries from
  column names to values. The values the type check of the engine admits are integers,
  strings, floats, booleans and \<^verbatim>\<open>None\<close>. Finite floats are rational numbers, and Python
  compares an \<^verbatim>\<open>int\<close> with a \<^verbatim>\<open>float\<close> exactly, so a float is modelled by its rational
  value (NaN and the infinities are outside the model).
\<close>

datatype DataType = INT_T | TEXT_T | FLOAT_T | BOOL_T

datatype pyval = PyNone | PyInt int | PyStr string | PyFloat rat | PyBool bool

text \<open>\<^verbatim>\<open>isinstance\<close>: Python's \<^verbatim>\<open>bool\<close> is a subclass of \<^verbatim>\<open>int\<close>.\<close>

fun isinstance_int :: "pyval \<Rightarrow> bool" where
  "isinstance_int (PyInt i) = True"
| "isinstance_int (PyBool b) = True"
| "isinstance_int v = False"

fun isinstance_str :: "pyval \<Rightarrow> bool" where
  "isinstance_str (PyStr s) = True"
| "isinstance_str v = False"

fun isinstance_int_float :: "pyval \<Rightarrow> bool" where
  "isinstance_int_float (PyInt i) = True"
| "isinstance_int_float (PyBool b) = True"
| "isinstance_int_float (PyFloat q) = True"
| "isinstance_int_float v = False"

fun isinstance_bool :: "pyval \<Rightarrow> bool" where
  "isinstance_bool (PyBool b) = True"
| "isinstance_bool v = False"

text \<open>
  Python's \<^verbatim>\<open>==\<close> on these values: numbers (booleans included, \<^verbatim>\<open>True == 1\<close>) compare
  by numeric value, strings with strings, \<^verbatim>\<open>None\<close> with \<^verbatim>\<open>None\<close>; everything else differs.
\<close>

fun num_of :: "pyval \<Rightarrow> rat option" where
  "num_of (PyInt i) = Some (of_int i)"
| "num_of (PyFloat q) = Some q"
| "num_of (PyBool b) = Some (if b then 1 else 0)"
| "num_of v = None"

fun py_eq :: "pyval \<Rightarrow> pyval \<Rightarrow> bool" where
  "py_eq PyNone PyNone = True"
| "py_eq (PyStr s) (PyStr t) = (s = t)"
| "py_eq a b = (case (num_of a, num_of b) of (Some x, Some y) \<Rightarrow> x = y | _ \<Rightarrow> False)"

text \<open>
  A dictionary or set keyed by values identifies keys that are \<^verbatim>\<open>==\<close> (equal values have
  equal hashes). \<open>key_of\<close> is the class of a value under \<^verbatim>\<open>==\<close>; the indexes of a table
  are keyed by it.
\<close>

datatype pykey = KNone | KNum rat | KStr string

fun key_of :: "pyval \<Rightarrow> pykey" where
  "key_of PyNone = KNone"
| "key_of (PyStr s) = KStr s"
| "key_of (PyInt i) = KNum (of_int i)"
| "key_of (PyFloat q) = KNum q"
| "key_of (PyBool b) = KNum (if b then 1 else 0)"

text \<open>
  A row is a Python \<^verbatim>\<open>dict\<close> with string keys: an association list in insertion order.
  \<^verbatim>\<open>d[k] = v\<close> overwrites in place when the key is there and appends otherwise;
  \<^verbatim>\<open>d[k]\<close> is \<open>map_of d k\<close>, with \<open>None\<close> standing for \<^verbatim>\<open>KeyError\<close>.
\<close>

type_synonym pydict = "(string \<times> pyval) list"

fun dict_set :: "pydict \<Rightarrow> string \<Rightarrow> pyval \<Rightarrow> pydict" where
  "dict_set [] k v = [(k, v)]"
| "dict_set ((k', v') # d) k v =
     (if k' = k then (k', v) # d else (k', v') # dict_set d k v)"

definition dict_contains :: "pydict \<Rightarrow> string \<Rightarrow> bool" where
  "dict_contains d k = (map_of d k \<noteq> None)"

text \<open>\<^verbatim>\<open>d.update(u)\<close> assigns the entries of \<open>u\<close> in order.\<close>

fun dict_update :: "pydict \<Rightarrow> pydict \<Rightarrow> pydict" where
  "dict_update d [] = d"
| "dict_update d ((k, v) # u) = dict_update (dict_set d k v) u"

text \<open>
  Every \<^verbatim>\<open>raise ValueError(...)\<close> of the engine is one constructor, named after its
  message; \<open>KeyError\<close> and \<open>IndexError\<close> are the exceptions of a failed \<^verbatim>\<open>d[k]\<close>,
  \<^verbatim>\<open>del d[k]\<close> or \<^verbatim>\<open>xs[i]\<close>.
\<close>

datatype error =
    CannotBeNull string
  | ExpectsType string DataType
  | PrimaryKeyViolation pyval
  | UniqueViolation string
  | NoPrimaryKey
  | ColumnDoesNotExist string string
  | TableAlreadyExists string
  | TableDoesNotExist string
  | ColumnNotFoundInJoin string
  | KeyError
  | IndexError

section \<open>Tables\<close>

record Column =
  name :: string
  data_type :: DataType
  is_primary_key :: bool
  is_unique :: bool
  not_null :: bool

text \<open>
  The mutable state of a \<^verbatim>\<open>Table\<close>: its rows and the two indexes. \<^verbatim>\<open>primary_key_index\<close>
  maps a key to a row position; \<^verbatim>\<open>unique_indexes\<close> is a \<^verbatim>\<open>defaultdict(set)\<close>, a set
  of keys for every column name, empty until something is added.
\<close>

record Table =
  table_name :: string
  columns :: "Column list"
  rows :: "pydict list"
  primary_key_index :: "pykey \<rightharpoonup> nat"
  unique_indexes :: "string \<Rightarrow> pykey set"

text \<open>
  \<^verbatim>\<open>column_names\<close>, \<^verbatim>\<open>primary_key\<close> and \<^verbatim>\<open>unique_columns\<close> are computed once by
  \<^verbatim>\<open>__init__\<close> from the columns, which never change afterwards.
\<close>

definition column_names :: "Table \<Rightarrow> string list" where
  "column_names t = map name (columns t)"

fun first_primary_key :: "Column list \<Rightarrow> string option" where
  "first_primary_key [] = None"
| "first_primary_key (c # cs) =
     (if is_primary_key c then Some (name c) else first_primary_key cs)"

definition primary_key :: "Table \<Rightarrow> string option" where
  "primary_key t = first_primary_key (columns t)"

definition unique_columns :: "Table \<Rightarrow> string list" where
  "unique_columns t = map name (filter (\<lambda>c. is_unique c \<or> is_primary_key c) (columns t))"

definition Table_init :: "string \<Rightarrow> Column list \<Rightarrow> Table" where
  "Table_init n cs =
     \<lparr>table_name = n, columns = cs, rows = [], primary_key_index = Map.empty,
      unique_indexes = (\<lambda>c. {})\<rparr>"

text \<open>
  \<^verbatim>\<open>if self.primary_key:\<close> tests truthiness: \<^verbatim>\<open>None\<close> and the empty string are both false.
\<close>

definition pk_truthy :: "Table \<Rightarrow> bool" where
  "pk_truthy t = (case primary_key t of None \<Rightarrow> False | Some p \<Rightarrow> p \<noteq> [])"

text \<open>The \<^verbatim>\<open>if/elif\<close> chain of the type check, for a value that is not \<^verbatim>\<open>None\<close>.\<close>

definition type_mismatch :: "DataType \<Rightarrow> pyval \<Rightarrow> bool" where
  "type_mismatch ty v =
     (if ty = INT_T \<and> \<not> isinstance_int v then True
      else if ty = TEXT_T \<and> \<not> isinstance_str v then True
      else if ty = FLOAT_T \<and> \<not> isinstance_int_float v then True
      else if ty = BOOL_T \<and> \<not> isinstance_bool v then True
      else False)"

subsection \<open>validate_row and insert\<close>

text \<open>First loop of \<^verbatim>\<open>validate_row\<close>: missing columns are rejected or set to \<^verbatim>\<open>None\<close>.\<close>

fun fill_missing :: "Column list \<Rightarrow> pydict \<Rightarrow> error + pydict" where
  "fill_missing [] row = Inr row"
| "fill_missing (c # cs) row =
     (if \<not> dict_contains row (name c) then
        (if not_null c then Inl (CannotBeNull (name c))
         else fill_missing cs (dict_set row (name c) PyNone))
      else fill_missing cs row)"

text \<open>Second loop: the type of every value that is not \<^verbatim>\<open>None\<close>.\<close>

fun check_types :: "Column list \<Rightarrow> pydict \<Rightarrow> error + unit" where
  "check_types [] row = Inr ()"
| "check_types (c # cs) row =
     (case map_of row (name c) of
        None \<Rightarrow> Inl KeyError
      | Some v \<Rightarrow>
          if v \<noteq> PyNone \<and> type_mismatch (data_type c) v
          then Inl (ExpectsType (name c) (data_type c))
          else check_types cs row)"

definition check_primary_key :: "Table \<Rightarrow> pydict \<Rightarrow> error + unit" where
  "check_primary_key t row =
     (if pk_truthy t then
        (case map_of row (the (primary_key t)) of
           None \<Rightarrow> Inl KeyError
         | Some pk_value \<Rightarrow>
             if key_of pk_value \<in> dom (primary_key_index t)
             then Inl (PrimaryKeyViolation pk_value) else Inr ())
      else Inr ())"

fun check_unique :: "Table \<Rightarrow> string list \<Rightarrow> pydict \<Rightarrow> error + unit" where
  "check_unique t [] row = Inr ()"
| "check_unique t (col_name # cs) row =
     (if Some col_name \<noteq> primary_key t then
        (case map_of row col_name of
           None \<Rightarrow> Inl KeyError
         | Some v \<Rightarrow>
             if v \<noteq> PyNone \<and> key_of v \<in> unique_indexes t col_name
             then Inl (UniqueViolation col_name)
             else check_unique t cs row)
      else check_unique t cs row)"

text \<open>
  \<^verbatim>\<open>validate_row\<close> changes the dictionary it is given (the missing columns) and nothing
  of the table; it returns the dictionary as changed.
\<close>

definition validate_row :: "Table \<Rightarrow> pydict \<Rightarrow> error + pydict" where
  "validate_row t row =
     (case fill_missing (columns t) row of
        Inl e \<Rightarrow> Inl e
      | Inr row' \<Rightarrow>
          (case check_types (columns t) row' of
             Inl e \<Rightarrow> Inl e
           | Inr u \<Rightarrow>
               (case check_primary_key t row' of
                  Inl e \<Rightarrow> Inl e
                | Inr u \<Rightarrow>
                    (case check_unique t (unique_columns t) row' of
                       Inl e \<Rightarrow> Inl e
                     | Inr u \<Rightarrow> Inr row'))))"

text \<open>
  A mutating method returns its outcome together with the table as it is left, also when
  it raises. The index updates of \<^verbatim>\<open>insert\<close>, after the row is appended:
\<close>

definition insert_pk :: "Table \<Rightarrow> pydict \<Rightarrow> nat \<Rightarrow> (error + unit) \<times> Table" where
  "insert_pk t row row_index =
     (if pk_truthy t then
        (case map_of row (the (primary_key t)) of
           None \<Rightarrow> (Inl KeyError, t)
         | Some pk_value \<Rightarrow>
             (Inr (), t\<lparr>primary_key_index := (primary_key_index t)(key_of pk_value \<mapsto> row_index)\<rparr>))
      else (Inr (), t))"

fun insert_unique :: "Table \<Rightarrow> string list \<Rightarrow> pydict \<Rightarrow> (error + unit) \<times> Table" where
  "insert_unique t [] row = (Inr (), t)"
| "insert_unique t (col_name # cs) row =
     (if Some col_name \<noteq> primary_key t then
        (case map_of row col_name of
           None \<Rightarrow> (Inl KeyError, t)
         | Some v \<Rightarrow>
             if v \<noteq> PyNone
             then insert_unique
                    (t\<lparr>unique_indexes := (unique_indexes t)
                          (col_name := insert (key_of v) (unique_indexes t col_name))\<rparr>) cs row
             else insert_unique t cs row)
      else insert_unique t cs row)"

definition insert_row :: "Table \<Rightarrow> pydict \<Rightarrow> (error + unit) \<times> Table" where
  "insert_row t row =
     (case validate_row t row of
        Inl e \<Rightarrow> (Inl e, t)
      | Inr row' \<Rightarrow>
          (let row_index = length (rows t);
               t1 = t\<lparr>rows := rows t @ [row']\<rparr>
           in case insert_pk t1 row' row_index of
                (Inl e, t2) \<Rightarrow> (Inl e, t2)
              | (Inr u, t2) \<Rightarrow> insert_unique t2 (unique_columns t) row'))"

subsection \<open>Reading\<close>

text \<open>
  With rows as values, \<^verbatim>\<open>select_all\<close> is the row sequence. What it shares with the
  table is the subject of the store model at the end of the definitions.
\<close>

definition select_all :: "Table \<Rightarrow> pydict list" where
  "select_all t = rows t"

definition select_where :: "Table \<Rightarrow> (pydict \<Rightarrow> bool) \<Rightarrow> pydict list" where
  "select_where t condition = filter condition (rows t)"

definition get_by_primary_key :: "Table \<Rightarrow> pyval \<Rightarrow> error + pydict option" where
  "get_by_primary_key t pk_value =
     (if \<not> pk_truthy t then Inl NoPrimaryKey
      else case primary_key_index t (key_of pk_value) of
             None \<Rightarrow> Inr None
           | Some row_index \<Rightarrow>
               if row_index < length (rows t) then Inr (Some (rows t ! row_index))
               else Inl IndexError)"

text \<open>The dictionary comprehension \<^verbatim>\<open>{col: row[col] for col in columns}\<close>.\<close>

fun project_row :: "string list \<Rightarrow> pydict \<Rightarrow> pydict \<Rightarrow> error + pydict" where
  "project_row [] row acc = Inr acc"
| "project_row (col # cs) row acc =
     (case map_of row col of
        None \<Rightarrow> Inl KeyError
      | Some v \<Rightarrow> project_row cs row (dict_set acc col v))"

fun project_rows :: "string list \<Rightarrow> pydict list \<Rightarrow> error + pydict list" where
  "project_rows cols [] = Inr []"
| "project_rows cols (row # rs) =
     (case project_row cols row [] of
        Inl e \<Rightarrow> Inl e
      | Inr p \<Rightarrow>
          (case project_rows cols rs of
             Inl e \<Rightarrow> Inl e
           | Inr ps \<Rightarrow> Inr (p # ps)))"

fun first_unknown :: "string list \<Rightarrow> string list \<Rightarrow> string option" where
  "first_unknown known [] = None"
| "first_unknown known (col # cs) =
     (if col \<notin> set known then Some col else first_unknown known cs)"

definition select_columns :: "Table \<Rightarrow> pydict list \<Rightarrow> string list \<Rightarrow> error + pydict list" where
  "select_columns t rs cols =
     (if cols = [] \<or> ''*'' \<in> set cols then Inr rs
      else case first_unknown (column_names t) cols of
             Some col \<Rightarrow> Inl (ColumnDoesNotExist col (table_name t))
           | None \<Rightarrow> project_rows cols rs)"

subsection \<open>update\<close>

text \<open>
  The condition of \<^verbatim>\<open>select_where\<close>, \<^verbatim>\<open>update\<close> and \<^verbatim>\<open>delete\<close> is a function from
  rows to truth values: it reads the row it is given and nothing else, and it returns.
  \<^verbatim>\<open>enumerate(self.rows)\<close> filtered by the condition, each row copied as it is found:
\<close>

definition matching_rows :: "Table \<Rightarrow> (pydict \<Rightarrow> bool) \<Rightarrow> (nat \<times> pydict) list" where
  "matching_rows t condition =
     filter (\<lambda>(i, row). condition row) (zip [0..<length (rows t)] (rows t))"

fun update_check_types :: "Column list \<Rightarrow> pydict \<Rightarrow> pydict \<Rightarrow> error + unit" where
  "update_check_types [] updates new_row = Inr ()"
| "update_check_types (c # cs) updates new_row =
     (if dict_contains updates (name c) then
        (case map_of new_row (name c) of
           None \<Rightarrow> Inl KeyError
         | Some v \<Rightarrow>
             if v \<noteq> PyNone then
               (if type_mismatch (data_type c) v
                then Inl (ExpectsType (name c) (data_type c))
                else update_check_types cs updates new_row)
             else if not_null c then Inl (CannotBeNull (name c))
             else update_check_types cs updates new_row)
      else update_check_types cs updates new_row)"

text \<open>
  The primary-key block of \<^verbatim>\<open>update\<close>: the collision check, then
  \<^verbatim>\<open>del self.primary_key_index[old_pk]\<close> (a \<^verbatim>\<open>KeyError\<close> when the key is not there) and
  the new entry.
\<close>

definition update_pk ::
  "Table \<Rightarrow> pydict \<Rightarrow> nat \<Rightarrow> pydict \<Rightarrow> pydict \<Rightarrow> (error + unit) \<times> Table" where
  "update_pk t updates row_index old_row new_row =
     (if pk_truthy t \<and> dict_contains updates (the (primary_key t)) then
        (case map_of old_row (the (primary_key t)) of
           None \<Rightarrow> (Inl KeyError, t)
         | Some old_pk \<Rightarrow>
             (case map_of new_row (the (primary_key t)) of
                None \<Rightarrow> (Inl KeyError, t)
              | Some new_pk \<Rightarrow>
                  if \<not> py_eq new_pk old_pk \<and> key_of new_pk \<in> dom (primary_key_index t)
                  then (Inl (PrimaryKeyViolation new_pk), t)
                  else if key_of old_pk \<notin> dom (primary_key_index t)
                  then (Inl KeyError, t)
                  else (Inr (),
                        t\<lparr>primary_key_index :=
                            ((primary_key_index t)(key_of old_pk := None))
                              (key_of new_pk \<mapsto> row_index)\<rparr>)))
      else (Inr (), t))"

text \<open>
  The uniqueness loop of \<^verbatim>\<open>update\<close>: each column is checked and its index changed
  before the next column is looked at.
\<close>

fun update_unique ::
  "Table \<Rightarrow> string list \<Rightarrow> pydict \<Rightarrow> pydict \<Rightarrow> pydict \<Rightarrow> (error + unit) \<times> Table" where
  "update_unique t [] updates old_row new_row = (Inr (), t)"
| "update_unique t (col_name # cs) updates old_row new_row =
     (if dict_contains updates col_name \<and> Some col_name \<noteq> primary_key t then
        (case map_of old_row col_name of
           None \<Rightarrow> (Inl KeyError, t)
         | Some old_value \<Rightarrow>
             (case map_of new_row col_name of
                None \<Rightarrow> (Inl KeyError, t)
              | Some new_value \<Rightarrow>
                  if \<not> py_eq old_value new_value then
                    (if new_value \<noteq> PyNone \<and> key_of new_value \<in> unique_indexes t col_name
                     then (Inl (UniqueViolation col_name), t)
                     else
                       (let s1 = (if old_value \<noteq> PyNone
                                  then unique_indexes t col_name - {key_of old_value}
                                  else unique_indexes t col_name);
                            s2 = (if new_value \<noteq> PyNone then insert (key_of new_value) s1
                                  else s1)
                        in update_unique
                             (t\<lparr>unique_indexes := (unique_indexes t)(col_name := s2)\<rparr>)
                             cs updates old_row new_row))
                  else update_unique t cs updates old_row new_row))
      else update_unique t cs updates old_row new_row)"

text \<open>One iteration of the second loop of \<^verbatim>\<open>update\<close>.\<close>

definition update_one :: "Table \<Rightarrow> pydict \<Rightarrow> nat \<times> pydict \<Rightarrow> (error + unit) \<times> Table" where
  "update_one t updates m =
     (let row_index = fst m; old_row = snd m;
          new_row = dict_update old_row updates
      in case update_check_types (columns t) updates new_row of
           Inl e \<Rightarrow> (Inl e, t)
         | Inr u \<Rightarrow>
             (case update_pk t updates row_index old_row new_row of
                (Inl e, t1) \<Rightarrow> (Inl e, t1)
              | (Inr u, t1) \<Rightarrow>
                  (case update_unique t1 (unique_columns t1) updates old_row new_row of
                     (Inl e, t2) \<Rightarrow> (Inl e, t2)
                   | (Inr u, t2) \<Rightarrow>
                       if row_index < length (rows t2)
                       then (Inr (), t2\<lparr>rows := (rows t2)[row_index := new_row]\<rparr>)
                       else (Inl IndexError, t2))))"

fun update_loop ::
  "Table \<Rightarrow> pydict \<Rightarrow> (nat \<times> pydict) list \<Rightarrow> nat \<Rightarrow> (error + nat) \<times> Table" where
  "update_loop t updates [] updated_count = (Inr updated_count, t)"
| "update_loop t updates (m # ms) updated_count =
     (case update_one t updates m of
        (Inl e, t') \<Rightarrow> (Inl e, t')
      | (Inr u, t') \<Rightarrow> update_loop t' updates ms (updated_count + 1))"

definition update :: "Table \<Rightarrow> pydict \<Rightarrow> (pydict \<Rightarrow> bool) \<Rightarrow> (error + nat) \<times> Table" where
  "update t updates condition = update_loop t updates (matching_rows t condition) 0"

subsection \<open>delete and delete_by_primary_key\<close>

fun discard_unique :: "Table \<Rightarrow> string list \<Rightarrow> pydict \<Rightarrow> (error + unit) \<times> Table" where
  "discard_unique t [] row = (Inr (), t)"
| "discard_unique t (col_name # cs) row =
     (if Some col_name \<noteq> primary_key t then
        (case map_of row col_name of
           None \<Rightarrow> (Inl KeyError, t)
         | Some v \<Rightarrow>
             if v \<noteq> PyNone
             then discard_unique
                    (t\<lparr>unique_indexes := (unique_indexes t)
                          (col_name := unique_indexes t col_name - {key_of v})\<rparr>) cs row
             else discard_unique t cs row)
      else discard_unique t cs row)"

text \<open>\<^verbatim>\<open>del self.rows[row_index]\<close>.\<close>

definition del_row :: "Table \<Rightarrow> nat \<Rightarrow> (error + unit) \<times> Table" where
  "del_row t row_index =
     (if row_index < length (rows t)
      then (Inr (), t\<lparr>rows := take row_index (rows t) @ drop (Suc row_index) (rows t)\<rparr>)
      else (Inl IndexError, t))"

definition delete_one :: "Table \<Rightarrow> nat \<times> pydict \<Rightarrow> (error + unit) \<times> Table" where
  "delete_one t m =
     (let row_index = fst m; row = snd m;
          r1 = (if pk_truthy t then
                  (case map_of row (the (primary_key t)) of
                     None \<Rightarrow> (Inl KeyError, t)
                   | Some pk_value \<Rightarrow>
                       if key_of pk_value \<notin> dom (primary_key_index t) then (Inl KeyError, t)
                       else (Inr (), t\<lparr>primary_key_index :=
                                         (primary_key_index t)(key_of pk_value := None)\<rparr>))
                else (Inr (), t))
      in case r1 of
           (Inl e, t1) \<Rightarrow> (Inl e, t1)
         | (Inr u, t1) \<Rightarrow>
             (case discard_unique t1 (unique_columns t1) row of
                (Inl e, t2) \<Rightarrow> (Inl e, t2)
              | (Inr u, t2) \<Rightarrow> del_row t2 row_index))"

fun delete_loop :: "Table \<Rightarrow> (nat \<times> pydict) list \<Rightarrow> (error + unit) \<times> Table" where
  "delete_loop t [] = (Inr (), t)"
| "delete_loop t (m # ms) =
     (case delete_one t m of
        (Inl e, t') \<Rightarrow> (Inl e, t')
      | (Inr u, t') \<Rightarrow> delete_loop t' ms)"

text \<open>The loop that fills the primary-key index again from \<^verbatim>\<open>enumerate(self.rows)\<close>.\<close>

fun rebuild_loop :: "Table \<Rightarrow> (nat \<times> pydict) list \<Rightarrow> (error + unit) \<times> Table" where
  "rebuild_loop t [] = (Inr (), t)"
| "rebuild_loop t ((i, row) # rs) =
     (case map_of row (the (primary_key t)) of
        None \<Rightarrow> (Inl KeyError, t)
      | Some pk_value \<Rightarrow>
          rebuild_loop (t\<lparr>primary_key_index := (primary_key_index t)(key_of pk_value \<mapsto> i)\<rparr>) rs)"

definition rebuild_index :: "Table \<Rightarrow> (error + unit) \<times> Table" where
  "rebuild_index t =
     rebuild_loop (t\<lparr>primary_key_index := Map.empty\<rparr>) (zip [0..<length (rows t)] (rows t))"

definition delete :: "Table \<Rightarrow> (pydict \<Rightarrow> bool) \<Rightarrow> (error + nat) \<times> Table" where
  "delete t condition =
     (let rows_to_delete = matching_rows t condition
      in case delete_loop t (rev rows_to_delete) of
           (Inl e, t1) \<Rightarrow> (Inl e, t1)
         | (Inr u, t1) \<Rightarrow>
             if pk_truthy t1 then
               (case rebuild_index t1 of
                  (Inl e, t2) \<Rightarrow> (Inl e, t2)
                | (Inr u, t2) \<Rightarrow> (Inr (length rows_to_delete), t2))
             else (Inr (length rows_to_delete), t1))"

definition delete_by_primary_key :: "Table \<Rightarrow> pyval \<Rightarrow> (error + bool) \<times> Table" where
  "delete_by_primary_key t pk_value =
     (if \<not> pk_truthy t then (Inl NoPrimaryKey, t)
      else case primary_key_index t (key_of pk_value) of
             None \<Rightarrow> (Inr False, t)
           | Some row_index \<Rightarrow>
               if \<not> row_index < length (rows t) then (Inl IndexError, t)
               else
                 (case discard_unique t (unique_columns t) (rows t ! row_index) of
                    (Inl e, t1) \<Rightarrow> (Inl e, t1)
                  | (Inr u, t1) \<Rightarrow>
                      (case del_row
                              (t1\<lparr>primary_key_index :=
                                    (primary_key_index t1)(key_of pk_value := None)\<rparr>)
                              row_index of
                         (Inl e, t2) \<Rightarrow> (Inl e, t2)
                       | (Inr u, t2) \<Rightarrow>
                           (case rebuild_index t2 of
                              (Inl e, t3) \<Rightarrow> (Inl e, t3)
                            | (Inr u, t3) \<Rightarrow> (Inr True, t3)))))"

section \<open>Database and joins\<close>

record Database =
  db_name :: string
  tables :: "string \<rightharpoonup> Table"

definition create_table :: "Database \<Rightarrow> Table \<Rightarrow> error + Database" where
  "create_table db t =
     (if table_name t \<in> dom (tables db) then Inl (TableAlreadyExists (table_name t))
      else Inr (db\<lparr>tables := (tables db)(table_name t \<mapsto> t)\<rparr>))"


definition drop_table :: "Database \<Rightarrow> string \<Rightarrow> error + Database" where
  "drop_table db n =
     (if n \<notin> dom (tables db) then Inl (TableDoesNotExist n)
      else Inr (db\<lparr>tables := (tables db)(n := None)\<rparr>))"













section \<open>Rows as shared objects\<close>
















section \<open>Well-formed tables\<close>

text \<open>
  The data model asks that every stored row has an entry for every declared column.
  \<open>no_extra_keys\<close> says that a row has no other entries.
\<close>

definition rows_complete :: "Table \<Rightarrow> bool" where
  "rows_complete t = (\<forall>row\<in>set (rows t). \<forall>c\<in>set (column_names t). map_of row c \<noteq> None)"

definition no_extra_keys :: "Table \<Rightarrow> bool" where
  "no_extra_keys t = (\<forall>row\<in>set (rows t). fst ` set row \<subseteq> set (column_names t))"

text \<open>
  The primary-key index is consistent with the rows when it maps a key to a position
  exactly if the row at that position has that key in the primary-key column. Two rows
  then never have the same key.
\<close>

definition pk_index_consistent :: "Table \<Rightarrow> bool" where
  "pk_index_consistent t =
     (\<forall>k i. primary_key_index t k = Some i \<longleftrightarrow>
        i < length (rows t)
        \<and> (\<exists>v. map_of (rows t ! i) (the (primary_key t)) = Some v \<and> key_of v = k))"

text \<open>
  A well-formed table: complete rows and, when there is a primary key, a column name that
  is not empty and a consistent index.
\<close>

definition table_ok :: "Table \<Rightarrow> bool" where
  "table_ok t =
     (rows_complete t
      \<and> (case primary_key t of
            None \<Rightarrow> True
          | Some p \<Rightarrow> p \<noteq> [] \<and> pk_index_consistent t))"


text \<open>The key under which a row with every column is indexed.\<close>

definition row_key :: "string \<Rightarrow> pydict \<Rightarrow> pykey" where
  "row_key p row = key_of (the (map_of row p))"

text \<open>Two rows that agree on every key but \<open>k\<close>.\<close>

definition agree_off :: "string \<Rightarrow> pydict \<Rightarrow> pydict \<Rightarrow> bool" where
  "agree_off k r1 r2 = (\<forall>k'. k' \<noteq> k \<longrightarrow> map_of r1 k' = map_of r2 k')"

section \<open>Example tables\<close>

definition Column_init :: "string \<Rightarrow> DataType \<Rightarrow> bool \<Rightarrow> bool \<Rightarrow> bool \<Rightarrow> Column" where
  "Column_init n ty pk uq nn =
     \<lparr>name = n, data_type = ty, is_primary_key = pk, is_unique = uq, not_null = nn\<rparr>"

text \<open>
  \<^verbatim>\<open>users(id INT PRIMARY KEY NOT NULL, email TEXT UNIQUE)\<close> with the rows
  \<^verbatim>\<open>{id: 1, email: "a"}\<close> and \<^verbatim>\<open>{id: 2, email: "b"}\<close>, built by two inserts.
\<close>

definition users_empty :: Table where
  "users_empty = Table_init ''users''
     [Column_init ''id'' INT_T True False True,
      Column_init ''email'' TEXT_T False True False]"

definition users_two :: Table where
  "users_two =
     snd (insert_row
            (snd (insert_row users_empty [(''id'', PyInt 1), (''email'', PyStr ''a'')]))
            [(''id'', PyInt 2), (''email'', PyStr ''b'')])"

text \<open>
  \<^verbatim>\<open>update({"id": 3, "email": "a"}, lambda row: row["id"] == 2)\<close>: the new e-mail
  address is the one of the other row.
\<close>

definition id_is :: "int \<Rightarrow> pydict \<Rightarrow> bool" where
  "id_is i row = (case map_of row ''id'' of None \<Rightarrow> False | Some v \<Rightarrow> py_eq v (PyInt i))"

definition users_failed_update :: "(error + nat) \<times> Table" where
  "users_failed_update =
     update users_two [(''id'', PyInt 3), (''email'', PyStr ''a'')] (id_is 2)"

text \<open>
  \<^verbatim>\<open>accounts(id INT PRIMARY KEY, owner TEXT)\<close>: the primary key without the not-null
  flag, as the \<^verbatim>\<open>users\<close> table of \<^verbatim>\<open>app.py\<close> declares it.
\<close>

definition accounts_empty :: Table where
  "accounts_empty = Table_init ''accounts''
     [Column_init ''id'' INT_T True False False,
      Column_init ''owner'' TEXT_T False False False]"

text \<open>\<^verbatim>\<open>readings(n INT, x FLOAT)\<close>, no keys.\<close>

definition readings_empty :: Table where
  "readings_empty = Table_init ''readings''
     [Column_init ''n'' INT_T False False False,
      Column_init ''x'' FLOAT_T False False False]"

text \<open>
  \<^verbatim>\<open>tags(id INT PRIMARY KEY NOT NULL, tag TEXT UNIQUE, note TEXT)\<close> with three rows.
\<close>

definition tags_three :: Table where
  "tags_three =
     snd (insert_row
       (snd (insert_row
          (snd (insert_row
             (Table_init ''tags''
                [Column_init ''id'' INT_T True False True,
                 Column_init ''tag'' TEXT_T False True False,
                 Column_init ''note'' TEXT_T False False False])
             [(''id'', PyInt 1), (''tag'', PyStr ''a''), (''note'', PyStr ''n'')]))
          [(''id'', PyInt 2), (''tag'', PyStr ''b''), (''note'', PyStr ''n'')]))
       [(''id'', PyInt 3), (''tag'', PyStr ''c''), (''note'', PyStr ''n'')])"

text \<open>\<^verbatim>\<open>accounts\<close> after \<^verbatim>\<open>insert({"id": 1, "owner": "x", "nickname": "y"})\<close>.\<close>

definition accounts_extra :: Table where
  "accounts_extra =
     snd (insert_row accounts_empty
            [(''id'', PyInt 1), (''owner'', PyStr ''x''), (''nickname'', PyStr ''y'')])"



text \<open>\<^verbatim>\<open>accounts\<close> after \<^verbatim>\<open>insert({"id": 1, "owner": "x"})\<close>.\<close>

definition accounts_one :: Table where
  "accounts_one =
     snd (insert_row accounts_empty [(''id'', PyInt 1), (''owner'', PyStr ''x'')])"

lemmas table_defs =
  Column_init_def Table_init_def users_empty_def users_two_def accounts_empty_def
  readings_empty_def users_failed_update_def id_is_def tags_three_def accounts_extra_def accounts_one_def

lemmas engine_defs =
  insert_row_def validate_row_def check_primary_key_def pk_truthy_def primary_key_def
  unique_columns_def column_names_def insert_pk_def dict_contains_def type_mismatch_def
  update_def update_one_def update_pk_def matching_rows_def get_by_primary_key_def
  select_where_def select_all_def select_columns_def rows_complete_def no_extra_keys_def
  Let_def


section \<open>Basic facts\<close>

lemma map_of_dict_set: "map_of (dict_set d k v) = (map_of d)(k \<mapsto> v)"
  by (induction d) (auto simp: fun_eq_iff)

lemma primary_key_upd [simp]:
  "primary_key (t\<lparr>rows := rs\<rparr>) = primary_key t"
  "primary_key (t\<lparr>primary_key_index := ix\<rparr>) = primary_key t"
  "primary_key (t\<lparr>unique_indexes := ui\<rparr>) = primary_key t"
  by (simp_all add: primary_key_def)

lemma pk_truthy_upd [simp]:
  "pk_truthy (t\<lparr>rows := rs\<rparr>) = pk_truthy t"
  "pk_truthy (t\<lparr>primary_key_index := ix\<rparr>) = pk_truthy t"
  "pk_truthy (t\<lparr>unique_indexes := ui\<rparr>) = pk_truthy t"
  by (simp_all add: pk_truthy_def)

lemma unique_columns_upd [simp]:
  "unique_columns (t\<lparr>rows := rs\<rparr>) = unique_columns t"
  "unique_columns (t\<lparr>primary_key_index := ix\<rparr>) = unique_columns t"
  "unique_columns (t\<lparr>unique_indexes := ui\<rparr>) = unique_columns t"
  by (simp_all add: unique_columns_def)

lemma column_names_upd [simp]:
  "column_names (t\<lparr>rows := rs\<rparr>) = column_names t"
  "column_names (t\<lparr>primary_key_index := ix\<rparr>) = column_names t"
  "column_names (t\<lparr>unique_indexes := ui\<rparr>) = column_names t"
  by (simp_all add: column_names_def)

lemma first_primary_key_in: "first_primary_key cs = Some p \<Longrightarrow> p \<in> name ` set cs"
  by (induction cs) (auto split: if_splits)

lemma primary_key_in_columns: "primary_key t = Some p \<Longrightarrow> p \<in> set (column_names t)"
  by (auto simp: primary_key_def column_names_def dest: first_primary_key_in)

lemma unique_columns_subset: "set (unique_columns t) \<subseteq> set (column_names t)"
  by (auto simp: unique_columns_def column_names_def)

lemma fill_missing_keeps:
  "fill_missing cs row = Inr row' \<Longrightarrow> map_of row k = Some v \<Longrightarrow> map_of row' k = Some v"
proof (induction cs arbitrary: row)
  case Nil
  then show ?case by simp
next
  case (Cons a cs)
  show ?case
  proof (cases "dict_contains row (name a)")
    case True
    with Cons.prems(1) have "fill_missing cs row = Inr row'" by simp
    from Cons.IH [OF this Cons.prems(2)] show ?thesis .
  next
    case False
    with Cons.prems(1) have f: "fill_missing cs (dict_set row (name a) PyNone) = Inr row'"
      by (simp split: if_splits)
    from False Cons.prems(2) have "k \<noteq> name a" by (auto simp: dict_contains_def)
    with Cons.prems(2) have "map_of (dict_set row (name a) PyNone) k = Some v"
      by (simp add: map_of_dict_set)
    from Cons.IH [OF f this] show ?thesis .
  qed
qed

lemma fill_missing_complete:
  "fill_missing cs row = Inr row' \<Longrightarrow> c \<in> set cs \<Longrightarrow> map_of row' (name c) \<noteq> None"
proof (induction cs arbitrary: row)
  case Nil
  then show ?case by simp
next
  case (Cons a cs)
  show ?case
  proof (cases "c = a")
    case True
    show ?thesis
    proof (cases "dict_contains row (name a)")
      case True
      then obtain v where v: "map_of row (name a) = Some v" by (auto simp: dict_contains_def)
      from True Cons.prems(1) have "fill_missing cs row = Inr row'" by simp
      from fill_missing_keeps [OF this v] \<open>c = a\<close> show ?thesis by simp
    next
      case False
      with Cons.prems(1) have f: "fill_missing cs (dict_set row (name a) PyNone) = Inr row'"
        by (simp split: if_splits)
      have "map_of (dict_set row (name a) PyNone) (name a) = Some PyNone"
        by (simp add: map_of_dict_set)
      from fill_missing_keeps [OF f this] \<open>c = a\<close> show ?thesis by simp
    qed
  next
    case False
    with Cons.prems(2) have "c \<in> set cs" by simp
    moreover from Cons.prems(1) obtain r where "fill_missing cs r = Inr row'"
      by (auto split: if_splits)
    ultimately show ?thesis using Cons.IH by blast
  qed
qed

lemma fill_missing_new:
  "fill_missing cs row = Inr row' \<Longrightarrow> map_of row k = None \<Longrightarrow>
   map_of row' k = (if k \<in> name ` set cs then Some PyNone else None)"
proof (induction cs arbitrary: row)
  case Nil
  then show ?case by simp
next
  case (Cons a cs)
  show ?case
  proof (cases "dict_contains row (name a)")
    case True
    with Cons.prems(1) have f: "fill_missing cs row = Inr row'" by simp
    from True Cons.prems(2) have "k \<noteq> name a" by (auto simp: dict_contains_def)
    with Cons.IH [OF f Cons.prems(2)] show ?thesis by simp
  next
    case False
    with Cons.prems(1) have f: "fill_missing cs (dict_set row (name a) PyNone) = Inr row'"
      by (simp split: if_splits)
    show ?thesis
    proof (cases "k = name a")
      case True
      have "map_of (dict_set row (name a) PyNone) k = Some PyNone"
        using True by (simp add: map_of_dict_set)
      from fill_missing_keeps [OF f this] True show ?thesis by simp
    next
      case False
      with Cons.prems(2) have "map_of (dict_set row (name a) PyNone) k = None"
        by (simp add: map_of_dict_set)
      from Cons.IH [OF f this] False show ?thesis by simp
    qed
  qed
qed

lemma validate_row_complete:
  assumes "validate_row t row = Inr row'" and "c \<in> set (column_names t)"
  shows "map_of row' c \<noteq> None"
  using assms
  by (auto simp: validate_row_def column_names_def split: sum.splits dest: fill_missing_complete)

lemma insert_unique_effect:
  "\<forall>c\<in>set cs. map_of row c \<noteq> None \<Longrightarrow>
   \<exists>t'. insert_unique t cs row = (Inr (), t') \<and> rows t' = rows t
        \<and> columns t' = columns t \<and> table_name t' = table_name t
        \<and> primary_key_index t' = primary_key_index t
        \<and> (\<forall>c. unique_indexes t' c =
              (if c \<in> set cs \<and> Some c \<noteq> primary_key t \<and> map_of row c \<noteq> Some PyNone
               then insert (key_of (the (map_of row c))) (unique_indexes t c)
               else unique_indexes t c))"
proof (induction cs arbitrary: t)
  case Nil
  then show ?case by simp
next
  case (Cons a cs)
  then obtain v where v: "map_of row a = Some v" by auto
  from Cons.prems have rest: "\<forall>c\<in>set cs. map_of row c \<noteq> None" by simp
  show ?case
  proof (cases "Some a \<noteq> primary_key t \<and> v \<noteq> PyNone")
    case True
    let ?t1 = "t\<lparr>unique_indexes := (unique_indexes t)(a := insert (key_of v) (unique_indexes t a))\<rparr>"
    from Cons.IH [OF rest, of ?t1] obtain t' where
      t': "insert_unique ?t1 cs row = (Inr (), t')" "rows t' = rows t" "columns t' = columns t"
          "table_name t' = table_name t" "primary_key_index t' = primary_key_index t"
          "\<forall>c. unique_indexes t' c =
              (if c \<in> set cs \<and> Some c \<noteq> primary_key t \<and> map_of row c \<noteq> Some PyNone
               then insert (key_of (the (map_of row c))) (unique_indexes ?t1 c)
               else unique_indexes ?t1 c)"
      by auto
    from True v t'(1) have "insert_unique t (a # cs) row = (Inr (), t')" by simp
    moreover from t'(6) True v have "\<forall>c. unique_indexes t' c =
              (if c \<in> set (a # cs) \<and> Some c \<noteq> primary_key t \<and> map_of row c \<noteq> Some PyNone
               then insert (key_of (the (map_of row c))) (unique_indexes t c)
               else unique_indexes t c)"
      by auto
    ultimately show ?thesis using t'(2-5) by blast
  next
    case False
    from Cons.IH [OF rest, of t] obtain t' where
      t': "insert_unique t cs row = (Inr (), t')" "rows t' = rows t" "columns t' = columns t"
          "table_name t' = table_name t" "primary_key_index t' = primary_key_index t"
          "\<forall>c. unique_indexes t' c =
              (if c \<in> set cs \<and> Some c \<noteq> primary_key t \<and> map_of row c \<noteq> Some PyNone
               then insert (key_of (the (map_of row c))) (unique_indexes t c)
               else unique_indexes t c)"
      by auto
    from False v t'(1) have "insert_unique t (a # cs) row = (Inr (), t')" by auto
    moreover from t'(6) False v have "\<forall>c. unique_indexes t' c =
              (if c \<in> set (a # cs) \<and> Some c \<noteq> primary_key t \<and> map_of row c \<noteq> Some PyNone
               then insert (key_of (the (map_of row c))) (unique_indexes t c)
               else unique_indexes t c)"
      by auto
    ultimately show ?thesis using t'(2-5) by blast
  qed
qed


lemma insert_pk_effect:
  assumes "pk_truthy t \<longrightarrow> map_of row (the (primary_key t)) \<noteq> None"
  shows "insert_pk t row i =
           (Inr (), if pk_truthy t
                    then t\<lparr>primary_key_index :=
                            (primary_key_index t)(key_of (the (map_of row (the (primary_key t)))) \<mapsto> i)\<rparr>
                    else t)"
  using assms by (auto simp: insert_pk_def)

lemma pk_truthy_column: "pk_truthy t \<Longrightarrow> the (primary_key t) \<in> set (column_names t)"
  by (auto simp: pk_truthy_def split: option.splits dest: primary_key_in_columns)

text \<open>After \<^verbatim>\<open>validate_row\<close> has passed, \<^verbatim>\<open>insert\<close> cannot raise.\<close>

lemma insert_row_success:
  assumes v: "validate_row t row = Inr row'"
  shows "\<exists>t'. insert_row t row = (Inr (), t')
            \<and> rows t' = rows t @ [row']
            \<and> primary_key_index t' =
                (if pk_truthy t
                 then (primary_key_index t)
                        (key_of (the (map_of row' (the (primary_key t)))) \<mapsto> length (rows t))
                 else primary_key_index t)
            \<and> (\<forall>c. unique_indexes t' c =
                  (if c \<in> set (unique_columns t) \<and> Some c \<noteq> primary_key t
                      \<and> map_of row' c \<noteq> Some PyNone
                   then insert (key_of (the (map_of row' c))) (unique_indexes t c)
                   else unique_indexes t c))
            \<and> columns t' = columns t \<and> table_name t' = table_name t"
proof -
  let ?t1 = "t\<lparr>rows := rows t @ [row']\<rparr>"
  let ?t2 = "if pk_truthy t
             then ?t1\<lparr>primary_key_index :=
                      (primary_key_index t)
                        (key_of (the (map_of row' (the (primary_key t)))) \<mapsto> length (rows t))\<rparr>
             else ?t1"
  have all: "\<forall>c\<in>set (column_names t). map_of row' c \<noteq> None"
    using validate_row_complete [OF v] by blast
  then have "pk_truthy ?t1 \<longrightarrow> map_of row' (the (primary_key ?t1)) \<noteq> None"
    using pk_truthy_column [of t] by simp
  from insert_pk_effect [OF this, of "length (rows t)"]
  have pk: "insert_pk ?t1 row' (length (rows t)) = (Inr (), ?t2)" by simp
  from all unique_columns_subset [of t]
  have "\<forall>c\<in>set (unique_columns t). map_of row' c \<noteq> None" by blast
  from insert_unique_effect [OF this, of ?t2] obtain t' where
    t': "insert_unique ?t2 (unique_columns t) row' = (Inr (), t')" "rows t' = rows ?t2"
        "columns t' = columns ?t2" "table_name t' = table_name ?t2"
        "primary_key_index t' = primary_key_index ?t2"
        "\<forall>c. unique_indexes t' c =
              (if c \<in> set (unique_columns t) \<and> Some c \<noteq> primary_key ?t2
                  \<and> map_of row' c \<noteq> Some PyNone
               then insert (key_of (the (map_of row' c))) (unique_indexes ?t2 c)
               else unique_indexes ?t2 c)"
    by blast
  have ins: "insert_row t row = (Inr (), t')"
    using v pk t'(1) by (simp add: insert_row_def Let_def)
  show ?thesis
    apply (rule exI [of _ t'])
    using ins t'(2-6) by (simp split: if_splits)
qed






subsection \<open>The loop of update\<close>

lemma update_pk_frame:
  "update_pk t u i old new = (r, t') \<Longrightarrow>
   rows t' = rows t \<and> columns t' = columns t \<and> table_name t' = table_name t
   \<and> unique_indexes t' = unique_indexes t"
  by (auto simp: update_pk_def split: if_splits option.splits)

lemma update_unique_frame:
  "update_unique t cs u old new = (r, t') \<Longrightarrow>
   rows t' = rows t \<and> columns t' = columns t \<and> table_name t' = table_name t
   \<and> primary_key_index t' = primary_key_index t"
proof (induction cs arbitrary: t)
  case Nil
  then show ?case by auto
next
  case (Cons a cs)
  show ?case
  proof (cases "update_unique t (a # cs) u old new = update_unique t cs u old new")
    case True
    with Cons show ?thesis by metis
  next
    case False
    show ?thesis
    proof (cases "\<exists>e. update_unique t (a # cs) u old new = (Inl e, t)")
      case True
      with Cons.prems show ?thesis by auto
    next
      case nofail: False
      from False nofail obtain s where
        "update_unique t (a # cs) u old new
           = update_unique (t\<lparr>unique_indexes := (unique_indexes t)(a := s)\<rparr>) cs u old new"
        by (auto simp: Let_def split: if_splits option.splits)
      with Cons.prems Cons.IH [of "t\<lparr>unique_indexes := (unique_indexes t)(a := s)\<rparr>"]
      show ?thesis by simp
    qed
  qed
qed

lemma update_one_ok:
  assumes "update_one t u (i, old) = (Inr x, t')"
  shows "i < length (rows t) \<and> rows t' = (rows t)[i := dict_update old u]
         \<and> columns t' = columns t \<and> table_name t' = table_name t"
proof -
  from assms obtain t1 t2 where
    1: "update_pk t u i old (dict_update old u) = (Inr (), t1)" and
    2: "update_unique t1 (unique_columns t1) u old (dict_update old u) = (Inr (), t2)" and
    3: "i < length (rows t2)" "t' = t2\<lparr>rows := (rows t2)[i := dict_update old u]\<rparr>"
    by (auto simp: update_one_def Let_def split: sum.splits prod.splits if_splits)
  from update_pk_frame [OF 1] update_unique_frame [OF 2] 3 show ?thesis by simp
qed

lemma update_one_fail:
  assumes "update_one t u (i, old) = (Inl e, t')"
  shows "rows t' = rows t \<and> columns t' = columns t \<and> table_name t' = table_name t"
proof -
  from assms consider
      "t' = t"
    | "update_pk t u i old (dict_update old u) = (Inl e, t')"
    | t1 where "update_pk t u i old (dict_update old u) = (Inr (), t1)"
        "update_unique t1 (unique_columns t1) u old (dict_update old u) = (Inl e, t')"
    | t1 where "update_pk t u i old (dict_update old u) = (Inr (), t1)"
        "update_unique t1 (unique_columns t1) u old (dict_update old u) = (Inr (), t')"
    by (auto simp: update_one_def Let_def split: sum.splits prod.splits if_splits)
  then show ?thesis
  proof cases
    case 1
    then show ?thesis by simp
  next
    case 2
    from update_pk_frame [OF this] show ?thesis by simp
  next
    case 3
    from update_pk_frame [OF 3(1)] update_unique_frame [OF 3(2)] show ?thesis by simp
  next
    case 4
    from update_pk_frame [OF 4(1)] update_unique_frame [OF 4(2)] show ?thesis by simp
  qed
qed

lemma update_loop_fail_split:
  "update_loop t u ms n = (Inl e, t') \<Longrightarrow>
   \<exists>pre m post t1. ms = pre @ m # post
      \<and> update_loop t u pre n = (Inr (n + length pre), t1)
      \<and> update_one t1 u m = (Inl e, t')"
proof (induction ms arbitrary: t n)
  case Nil
  then show ?case by simp
next
  case (Cons a ms)
  obtain r t1 where s: "update_one t u a = (r, t1)" by (cases "update_one t u a")
  show ?case
  proof (cases r)
    case (Inl e')
    with s Cons.prems have "e' = e" "t1 = t'" by auto
    with s Inl have "a # ms = [] @ a # ms \<and> update_loop t u [] n = (Inr (n + length ([]::(nat \<times> pydict) list)), t)
        \<and> update_one t u a = (Inl e, t')" by simp
    then show ?thesis by blast
  next
    case (Inr x)
    with s Cons.prems have "update_loop t1 u ms (n + 1) = (Inl e, t')" by simp
    from Cons.IH [OF this] obtain pre m post t2 where
      d: "ms = pre @ m # post" "update_loop t1 u pre (n + 1) = (Inr (n + 1 + length pre), t2)"
         "update_one t2 u m = (Inl e, t')" by blast
    from s Inr d(2) have "update_loop t u (a # pre) n = (Inr (n + length (a # pre)), t2)"
      by simp
    with d(1,3) have "a # ms = (a # pre) @ m # post
        \<and> update_loop t u (a # pre) n = (Inr (n + length (a # pre)), t2)
        \<and> update_one t2 u m = (Inl e, t')" by simp
    then show ?thesis by blast
  qed
qed

lemma update_loop_ok:
  "update_loop t u ms n = (Inr k, t') \<Longrightarrow> distinct (map fst ms) \<Longrightarrow>
   k = n + length ms \<and> length (rows t') = length (rows t)
   \<and> (\<forall>j. rows t' ! j = (case map_of ms j of None \<Rightarrow> rows t ! j | Some r \<Rightarrow> dict_update r u))"
proof (induction ms arbitrary: t n)
  case Nil
  then show ?case by simp
next
  case (Cons a ms)
  obtain i old where a: "a = (i, old)" by (cases a)
  obtain r t1 where s: "update_one t u a = (r, t1)" by (cases "update_one t u a")
  with Cons.prems(1) obtain x where r: "r = Inr x" by (cases r) auto
  with s Cons.prems(1) have l: "update_loop t1 u ms (n + 1) = (Inr k, t')" by simp
  from Cons.prems(2) have dis: "distinct (map fst ms)" and notin: "i \<notin> fst ` set ms"
    using a by auto
  from Cons.IH [OF l dis] have
    ih: "k = n + 1 + length ms" "length (rows t') = length (rows t1)"
        "\<forall>j. rows t' ! j = (case map_of ms j of None \<Rightarrow> rows t1 ! j | Some r \<Rightarrow> dict_update r u)"
    by auto
  from s r a update_one_ok have
    one: "i < length (rows t)" "rows t1 = (rows t)[i := dict_update old u]" by blast+
  have none: "map_of ms i = None" using notin by (simp add: map_of_eq_None_iff)
  have "\<forall>j. rows t' ! j = (case map_of (a # ms) j of None \<Rightarrow> rows t ! j | Some r \<Rightarrow> dict_update r u)"
  proof
    fix j
    show "rows t' ! j = (case map_of (a # ms) j of None \<Rightarrow> rows t ! j | Some r \<Rightarrow> dict_update r u)"
      using ih(3) [rule_format, of j] one none a
      by (cases "j = i") (auto split: option.splits)
  qed
  with ih(1,2) one show ?case by simp
qed


lemma matching_rows_iff:
  "(j, r) \<in> set (matching_rows t c) \<longleftrightarrow> j < length (rows t) \<and> r = rows t ! j \<and> c r"
proof
  assume "(j, r) \<in> set (matching_rows t c)"
  then show "j < length (rows t) \<and> r = rows t ! j \<and> c r"
    by (auto simp: matching_rows_def in_set_zip)
next
  assume a: "j < length (rows t) \<and> r = rows t ! j \<and> c r"
  then have "[0..<length (rows t)] ! j = j \<and> rows t ! j = r \<and> j < length [0..<length (rows t)]
      \<and> j < length (rows t)" by simp
  then have "(j, r) \<in> set (zip [0..<length (rows t)] (rows t))"
    unfolding in_set_zip by (intro exI [of _ j]) simp
  with a show "(j, r) \<in> set (matching_rows t c)" by (auto simp: matching_rows_def)
qed

lemma matching_rows_sorted: "sorted_wrt (<) (map fst (matching_rows t c))"
proof -
  have "map fst (zip [0..<length (rows t)] (rows t)) = [0..<length (rows t)]"
    by simp
  then have "sorted_wrt (\<lambda>x y. fst x < fst y) (zip [0..<length (rows t)] (rows t))"
    by (metis sorted_wrt_map sorted_wrt_upt)
  then show ?thesis
    by (simp add: matching_rows_def sorted_wrt_map sorted_wrt_filter)
qed

lemma matching_rows_distinct: "distinct (map fst (matching_rows t c))"
  using matching_rows_sorted [of t c] strict_sorted_iff by blast

lemma matching_rows_length: "length (matching_rows t c) = length (filter c (rows t))"
proof -
  have "map snd (filter (\<lambda>(i, row). c row) xs) = filter c (map snd xs)" for xs :: "(nat \<times> pydict) list"
    by (induction xs) auto
  then have "map snd (matching_rows t c) = filter c (rows t)"
    by (simp add: matching_rows_def)
  then show ?thesis by (metis length_map)
qed

lemma matching_rows_map_of:
  "map_of (matching_rows t c) j =
     (if j < length (rows t) \<and> c (rows t ! j) then Some (rows t ! j) else None)"
proof (cases "j < length (rows t) \<and> c (rows t ! j)")
  case True
  then have "(j, rows t ! j) \<in> set (matching_rows t c)" by (simp add: matching_rows_iff)
  with matching_rows_distinct [of t c] True show ?thesis by simp
next
  case False
  then have "j \<notin> fst ` set (matching_rows t c)" by (auto simp: matching_rows_iff)
  then have "map_of (matching_rows t c) j = None" by (simp add: map_of_eq_None_iff)
  with False show ?thesis by auto
qed

subsection \<open>Projection\<close>

lemma project_row_ok:
  "\<forall>c\<in>set cols. map_of row c \<noteq> None \<Longrightarrow>
   \<exists>p. project_row cols row acc = Inr p
     \<and> map_of p = (\<lambda>k. if k \<in> set cols then map_of row k else map_of acc k)"
proof (induction cols arbitrary: acc)
  case Nil
  then show ?case by simp
next
  case (Cons a cols)
  then obtain v where v: "map_of row a = Some v" by auto
  from Cons.prems have "\<forall>c\<in>set cols. map_of row c \<noteq> None" by simp
  from Cons.IH [OF this, of "dict_set acc a v"] obtain p where
    p: "project_row cols row (dict_set acc a v) = Inr p"
       "map_of p = (\<lambda>k. if k \<in> set cols then map_of row k else map_of (dict_set acc a v) k)"
    by blast
  from p(2) v have "map_of p = (\<lambda>k. if k \<in> set (a # cols) then map_of row k else map_of acc k)"
    by (auto simp: fun_eq_iff map_of_dict_set)
  with p(1) v show ?case by simp
qed

lemma project_rows_ok:
  "\<forall>row\<in>set rs. \<forall>c\<in>set cols. map_of row c \<noteq> None \<Longrightarrow>
   \<exists>ps. project_rows cols rs = Inr ps \<and> length ps = length rs
     \<and> (\<forall>i<length rs. map_of (ps ! i) = map_of (rs ! i) |` set cols)"
proof (induction rs)
  case Nil
  then show ?case by simp
next
  case (Cons row rs)
  from Cons.prems have "\<forall>c\<in>set cols. map_of row c \<noteq> None" by simp
  from project_row_ok [OF this, of "[]"] obtain p where
    p: "project_row cols row [] = Inr p" "map_of p = map_of row |` set cols"
    by (auto simp: restrict_map_def fun_eq_iff)
  from Cons obtain ps where
    ps: "project_rows cols rs = Inr ps" "length ps = length rs"
        "\<forall>i<length rs. map_of (ps ! i) = map_of (rs ! i) |` set cols"
    by auto
  have "\<forall>i<length (row # rs). map_of ((p # ps) ! i) = map_of ((row # rs) ! i) |` set cols"
    using p(2) ps(3) by (auto simp: nth_Cons split: nat.splits)
  with p(1) ps(1,2) show ?case by simp
qed

lemma first_unknown_None: "first_unknown known cols = None \<longleftrightarrow> set cols \<subseteq> set known"
  by (induction cols) auto

lemma restrict_map_keys:
  assumes "fst ` set d \<subseteq> A" shows "map_of d |` A = map_of d"
proof
  fix k
  note sub = assms
  show "(map_of d |` A) k = map_of d k"
  proof (cases "k \<in> A")
    case True
    then show ?thesis by simp
  next
    case False
    with sub have "k \<notin> fst ` set d" by blast
    then have "map_of d k = None" by (simp add: map_of_eq_None_iff)
    with False show ?thesis by simp
  qed
qed

subsection \<open>The scan of the right table and the index\<close>

lemma py_eq_key: "py_eq a b \<longleftrightarrow> key_of a = key_of b"
  by (cases a; cases b) auto






subsection \<open>Keys that are not columns\<close>

lemma agree_off_dict_set: "agree_off k (dict_set r k v) r"
  by (simp add: agree_off_def map_of_dict_set)

lemma agree_off_set_both:
  "agree_off k r1 r2 \<Longrightarrow> agree_off k (dict_set r1 a b) (dict_set r2 a b)"
  by (simp add: agree_off_def map_of_dict_set)

lemma fill_missing_agree:
  "agree_off k r1 r2 \<Longrightarrow> k \<notin> name ` set cs \<Longrightarrow>
   rel_sum (=) (agree_off k) (fill_missing cs r1) (fill_missing cs r2)"
proof (induction cs arbitrary: r1 r2)
  case Nil
  then show ?case by simp
next
  case (Cons c cs)
  from Cons.prems have ne: "name c \<noteq> k" and rest: "k \<notin> name ` set cs" by auto
  with Cons.prems(1) have same: "dict_contains r1 (name c) = dict_contains r2 (name c)"
    by (simp add: agree_off_def dict_contains_def)
  show ?case
  proof (cases "dict_contains r2 (name c)")
    case True
    with same Cons.IH [OF Cons.prems(1) rest] show ?thesis by simp
  next
    case False
    with same Cons.IH [OF agree_off_set_both [OF Cons.prems(1)] rest, of "name c" PyNone]
    show ?thesis by simp
  qed
qed

lemma check_types_cong:
  "\<forall>c\<in>set cs. map_of r1 (name c) = map_of r2 (name c) \<Longrightarrow>
   check_types cs r1 = check_types cs r2"
  by (induction cs) (auto split: option.splits)

lemma check_unique_cong:
  "\<forall>c\<in>set cs. map_of r1 c = map_of r2 c \<Longrightarrow> check_unique t cs r1 = check_unique t cs r2"
  by (induction cs) (auto split: option.splits)

lemma check_primary_key_cong:
  "(pk_truthy t \<longrightarrow> map_of r1 (the (primary_key t)) = map_of r2 (the (primary_key t))) \<Longrightarrow>
   check_primary_key t r1 = check_primary_key t r2"
  by (auto simp: check_primary_key_def)

lemma validate_row_agree:
  assumes "agree_off k r1 r2" and "k \<notin> set (column_names t)"
  shows "rel_sum (=) (agree_off k) (validate_row t r1) (validate_row t r2)"
proof -
  from assms(2) have k: "k \<notin> name ` set (columns t)" by (simp add: column_names_def)
  from fill_missing_agree [OF assms(1) k]
  have f: "rel_sum (=) (agree_off k) (fill_missing (columns t) r1) (fill_missing (columns t) r2)" .
  show ?thesis
  proof (cases "fill_missing (columns t) r2")
    case (Inl e)
    with f show ?thesis by (cases "fill_missing (columns t) r1") (auto simp: validate_row_def)
  next
    case (Inr b)
    with f obtain a where a: "fill_missing (columns t) r1 = Inr a" "agree_off k a b"
      by (cases "fill_missing (columns t) r1") auto
    from a(2) assms(2) have cols: "\<forall>c\<in>set (column_names t). map_of a c = map_of b c"
      by (auto simp: agree_off_def)
    then have 1: "check_types (columns t) a = check_types (columns t) b"
      by (intro check_types_cong) (simp add: column_names_def)
    from cols pk_truthy_column [of t]
    have 2: "check_primary_key t a = check_primary_key t b"
      by (intro check_primary_key_cong) auto
    from cols unique_columns_subset [of t]
    have 3: "check_unique t (unique_columns t) a = check_unique t (unique_columns t) b"
      by (intro check_unique_cong) auto
    from a Inr 1 2 3 show ?thesis
      by (auto simp: validate_row_def split: sum.splits)
  qed
qed

lemma insert_row_fst:
  "fst (insert_row t row) = (case validate_row t row of Inl e \<Rightarrow> Inl e | Inr r \<Rightarrow> Inr ())"
proof (cases "validate_row t row")
  case (Inl e)
  then show ?thesis by (simp add: insert_row_def)
next
  case (Inr r)
  with insert_row_success [of t row r] obtain t' where "insert_row t row = (Inr (), t')" by blast
  with Inr show ?thesis by simp
qed

lemma insert_row_last:
  assumes "validate_row t row = Inr r"
  shows "rows (snd (insert_row t row)) = rows t @ [r]"
proof -
  from insert_row_success [OF assms] obtain t' where
    "insert_row t row = (Inr (), t')" "rows t' = rows t @ [r]" by blast
  then show ?thesis by simp
qed

lemma insert_extra_key:
  assumes "k \<notin> set (column_names t)"
  shows "fst (insert_row t (dict_set row k v)) = fst (insert_row t row)"
    and "fst (insert_row t (dict_set row k v)) = Inr () \<Longrightarrow>
         map_of (last (rows (snd (insert_row t (dict_set row k v))))) k = Some v"
proof -
  from validate_row_agree [OF agree_off_dict_set assms, of row v]
  have r: "rel_sum (=) (agree_off k) (validate_row t (dict_set row k v)) (validate_row t row)" .
  then show "fst (insert_row t (dict_set row k v)) = fst (insert_row t row)"
    unfolding insert_row_fst
    by (cases "validate_row t (dict_set row k v)"; cases "validate_row t row") auto
  assume "fst (insert_row t (dict_set row k v)) = Inr ()"
  then obtain r' where v: "validate_row t (dict_set row k v) = Inr r'"
    unfolding insert_row_fst by (cases "validate_row t (dict_set row k v)") auto
  then have "fill_missing (columns t) (dict_set row k v) = Inr r'"
    by (auto simp: validate_row_def split: sum.splits)
  moreover have "map_of (dict_set row k v) k = Some v" by (simp add: map_of_dict_set)
  ultimately have "map_of r' k = Some v" by (rule fill_missing_keeps)
  with insert_row_last [OF v]
  show "map_of (last (rows (snd (insert_row t (dict_set row k v))))) k = Some v" by simp
qed


lemma dict_update_map_of: "map_of (dict_update d u) = map_of d ++ map_of (rev u)"
proof (induction u arbitrary: d)
  case Nil
  then show ?case by simp
next
  case (Cons p u)
  obtain a b where p: "p = (a, b)" by (cases p)
  have "map_of (dict_set d a b) ++ map_of (rev u) = map_of d ++ map_of (rev u @ [(a, b)])"
    by (auto simp: map_of_dict_set map_add_def fun_eq_iff split: option.splits)
  with Cons p show ?case by simp
qed

lemma rev_dict_set_other:
  "c \<noteq> k \<Longrightarrow> map_of (rev (dict_set u k v)) c = map_of (rev u) c"
  by (induction u) (auto simp: map_add_def split: option.splits)

lemma dict_update_agree: "agree_off k (dict_update d (dict_set u k v)) (dict_update d u)"
  by (simp add: agree_off_def dict_update_map_of map_add_def rev_dict_set_other)

lemma dict_contains_set_other:
  "c \<noteq> k \<Longrightarrow> dict_contains (dict_set u k v) c = dict_contains u c"
  by (simp add: dict_contains_def map_of_dict_set)

lemma update_check_types_cong:
  "\<forall>c\<in>set cs. dict_contains u1 (name c) = dict_contains u2 (name c)
      \<and> map_of n1 (name c) = map_of n2 (name c) \<Longrightarrow>
   update_check_types cs u1 n1 = update_check_types cs u2 n2"
  by (induction cs) (auto split: option.splits)

lemma update_pk_cong:
  "(pk_truthy t \<longrightarrow> dict_contains u1 (the (primary_key t)) = dict_contains u2 (the (primary_key t))
      \<and> map_of n1 (the (primary_key t)) = map_of n2 (the (primary_key t))) \<Longrightarrow>
   update_pk t u1 i old n1 = update_pk t u2 i old n2"
  by (auto simp: update_pk_def split: option.splits)

lemma update_unique_cong:
  "\<forall>c\<in>set cs. dict_contains u1 c = dict_contains u2 c \<and> map_of n1 c = map_of n2 c \<Longrightarrow>
   update_unique t cs u1 old n1 = update_unique t cs u2 old n2"
proof (induction cs arbitrary: t)
  case Nil
  then show ?case by simp
next
  case (Cons a cs)
  then have a: "dict_contains u1 a = dict_contains u2 a" "map_of n1 a = map_of n2 a"
    and ih: "\<And>t. update_unique t cs u1 old n1 = update_unique t cs u2 old n2"
    by auto
  show ?case by (simp add: a ih cong: option.case_cong if_cong)
qed

lemma update_pk_rows:
  "update_pk (t\<lparr>rows := rs\<rparr>) u i old new =
     (case update_pk t u i old new of (r, t') \<Rightarrow> (r, t'\<lparr>rows := rs\<rparr>))"
  by (auto simp: update_pk_def split: option.splits)

lemma update_unique_rows:
  "update_unique (t\<lparr>rows := rs\<rparr>) cs u old new =
     (case update_unique t cs u old new of (r, t') \<Rightarrow> (r, t'\<lparr>rows := rs\<rparr>))"
proof (induction cs arbitrary: t)
  case Nil
  then show ?case by simp
next
  case (Cons a cs)
  have sw: "t\<lparr>rows := rs, unique_indexes := x\<rparr> = t\<lparr>unique_indexes := x, rows := rs\<rparr>" for x
    by simp
  show ?case
    by (simp add: Let_def sw Cons.IH split: option.splits)
qed


lemma update_one_extra_key:
  assumes k: "k \<notin> set (column_names t)" and len: "length rs = length (rows t)"
  shows "update_one (t\<lparr>rows := rs\<rparr>) (dict_set u k v) (i, old) =
     (case update_one t u (i, old) of
        (Inl e, t') \<Rightarrow> (Inl e, t'\<lparr>rows := rs\<rparr>)
      | (Inr x, t') \<Rightarrow> (Inr x, t'\<lparr>rows := rs[i := dict_update old (dict_set u k v)]\<rparr>))"
proof -
  let ?u' = "dict_set u k v"
  let ?n1 = "dict_update old ?u'" and ?n2 = "dict_update old u"
  have ag: "agree_off k ?n1 ?n2" by (rule dict_update_agree)
  have col: "dict_contains ?u' c = dict_contains u c \<and> map_of ?n1 c = map_of ?n2 c"
    if "c \<in> set (column_names t)" for c
  proof -
    from that k have "c \<noteq> k" by auto
    with ag show ?thesis by (simp add: dict_contains_set_other agree_off_def)
  qed
  have c0: "update_check_types (columns t) ?u' ?n1 = update_check_types (columns t) u ?n2"
    using col by (intro update_check_types_cong) (simp add: column_names_def)
  have c1: "update_pk t ?u' i old ?n1 = update_pk t u i old ?n2"
    using col pk_truthy_column [of t] by (intro update_pk_cong) blast
  obtain r1 t1 where p: "update_pk t u i old ?n2 = (r1, t1)"
    by (cases "update_pk t u i old ?n2")
  from update_pk_frame [OF p] have f1: "rows t1 = rows t" "columns t1 = columns t" by simp_all
  then have names: "column_names t1 = column_names t" by (simp add: column_names_def)
  have c2: "update_unique t1 (unique_columns t1) ?u' old ?n1
              = update_unique t1 (unique_columns t1) u old ?n2"
    using col unique_columns_subset [of t1] names by (intro update_unique_cong) auto
  obtain r2 t2 where q: "update_unique t1 (unique_columns t1) u old ?n2 = (r2, t2)"
    by (cases "update_unique t1 (unique_columns t1) u old ?n2")
  from update_unique_frame [OF q] f1 have f2: "rows t2 = rows t" by simp
  show ?thesis
    using c0 c1 p c2 q f2 len
    by (simp add: update_one_def Let_def update_pk_rows update_unique_rows
          split: sum.splits)
qed

lemma update_loop_extra_key:
  "k \<notin> set (column_names t) \<Longrightarrow> length rs = length (rows t) \<Longrightarrow>
   fst (update_loop (t\<lparr>rows := rs\<rparr>) (dict_set u k v) ms n) = fst (update_loop t u ms n)"
proof (induction ms arbitrary: t rs n)
  case Nil
  then show ?case by simp
next
  case (Cons m ms)
  obtain i old where m: "m = (i, old)" by (cases m)
  obtain r t' where s: "update_one t u (i, old) = (r, t')" by (cases "update_one t u (i, old)")
  show ?case
  proof (cases r)
    case (Inl e)
    with s m update_one_extra_key [OF Cons.prems, of u v i old] show ?thesis by simp
  next
    case (Inr x)
    let ?rs' = "rs[i := dict_update old (dict_set u k v)]"
    from s Inr update_one_ok [of t u i old x t'] have
      f: "length (rows t') = length (rows t)" "columns t' = columns t" by simp_all
    then have k': "k \<notin> set (column_names t')" using Cons.prems(1) by (simp add: column_names_def)
    from f Cons.prems(2) have len': "length ?rs' = length (rows t')" by simp
    from Cons.IH [OF k' len', of "n + 1"]
    have "fst (update_loop (t'\<lparr>rows := ?rs'\<rparr>) (dict_set u k v) ms (n + 1))
            = fst (update_loop t' u ms (n + 1))" .
    with s Inr m update_one_extra_key [OF Cons.prems, of u v i old] show ?thesis by simp
  qed
qed

lemma update_extra_key_fst:
  assumes "k \<notin> set (column_names t)"
  shows "fst (update t (dict_set u k v) c) = fst (update t u c)"
proof -
  from update_loop_extra_key [OF assms, of "rows t" u v "matching_rows t c" 0]
  show ?thesis by (simp add: update_def)
qed

lemma rev_dict_set_same:
  "distinct (map fst u) \<Longrightarrow> map_of (rev (dict_set u k v)) k = Some v"
proof (induction u)
  case Nil
  then show ?case by simp
next
  case (Cons p u)
  obtain a b where p: "p = (a, b)" by (cases p)
  show ?case
  proof (cases "a = k")
    case True
    with Cons.prems p have "k \<notin> fst ` set u" by auto
    then have "map_of (rev u) k = None" by (simp add: map_of_eq_None_iff)
    with True p show ?thesis by (simp add: map_add_def)
  next
    case False
    with Cons p show ?thesis by (simp add: map_add_def)
  qed
qed

lemma update_extra_key_stored:
  assumes "distinct (map fst u)" and "fst (update t (dict_set u k v) c) = Inr n"
    and "j < length (rows t)" and "c (rows t ! j)"
  shows "map_of (rows (snd (update t (dict_set u k v) c)) ! j) k = Some v"
proof -
  let ?u' = "dict_set u k v"
  from assms(2) have "update_loop t ?u' (matching_rows t c) 0 = (Inr n, snd (update t ?u' c))"
    by (metis prod.collapse update_def)
  from update_loop_ok [OF this matching_rows_distinct] assms(3,4)
  have "rows (snd (update t ?u' c)) ! j = dict_update (rows t ! j) ?u'"
    by (simp add: matching_rows_map_of)
  with rev_dict_set_same [OF assms(1)] show ?thesis
    by (simp add: dict_update_map_of map_add_def)
qed

subsection \<open>Well-formed tables stay well-formed\<close>

text \<open>
  A new table is well-formed when the name of its primary-key column is not empty.
  \<^verbatim>\<open>insert\<close>, whether it raises or not, every \<^verbatim>\<open>update\<close> that returns a count,
  \<^verbatim>\<open>delete\<close> and \<^verbatim>\<open>delete_by_primary_key\<close> leave a well-formed table well-formed.
\<close>

lemma table_ok_init:
  "first_primary_key cs \<noteq> Some [] \<Longrightarrow> table_ok (Table_init n cs)"
  by (auto simp: table_ok_def Table_init_def rows_complete_def pk_index_consistent_def
        primary_key_def split: option.splits)

lemma validate_row_fresh_key:
  assumes "validate_row t row = Inr row'" and "pk_truthy t"
  shows "\<exists>v. map_of row' (the (primary_key t)) = Some v \<and> key_of v \<notin> dom (primary_key_index t)"
proof -
  from assms(1) have "check_primary_key t row' = Inr ()"
    by (auto simp: validate_row_def split: sum.splits)
  with assms(2) show ?thesis
    by (auto simp: check_primary_key_def split: option.splits if_splits)
qed

lemma table_ok_insert:
  assumes ok: "table_ok t"
  shows "table_ok (snd (insert_row t row))"
proof (cases "validate_row t row")
  case (Inl e)
  then have "insert_row t row = (Inl e, t)" by (simp add: insert_row_def)
  with ok show ?thesis by simp
next
  case (Inr row')
  from insert_row_success [OF Inr] obtain t' where
    t': "insert_row t row = (Inr (), t')" "rows t' = rows t @ [row']"
        "primary_key_index t' =
           (if pk_truthy t
            then (primary_key_index t)
                   (key_of (the (map_of row' (the (primary_key t)))) \<mapsto> length (rows t))
            else primary_key_index t)"
        "columns t' = columns t"
    by blast
  from t'(4) have pk: "primary_key t' = primary_key t" and names: "column_names t' = column_names t"
    by (simp_all add: primary_key_def column_names_def)
  from ok have rc: "rows_complete t" by (simp add: table_ok_def)
  have rc': "rows_complete t'"
    using rc validate_row_complete [OF Inr] t'(2) names by (auto simp: rows_complete_def)
  show ?thesis
  proof (cases "primary_key t")
    case None
    with rc' pk t'(1) show ?thesis by (simp add: table_ok_def)
  next
    case (Some p)
    with ok have ne: "p \<noteq> []" and ix: "pk_index_consistent t" by (simp_all add: table_ok_def)
    from Some ne have truthy: "pk_truthy t" by (simp add: pk_truthy_def)
    from validate_row_fresh_key [OF Inr truthy] Some obtain v where
      v: "map_of row' p = Some v" "key_of v \<notin> dom (primary_key_index t)" by auto
    from t'(3) truthy Some v(1)
    have ix': "primary_key_index t' = (primary_key_index t)(key_of v \<mapsto> length (rows t))"
      by simp
    have "pk_index_consistent t'"
      unfolding pk_index_consistent_def
    proof (intro allI)
      fix k i
      show "primary_key_index t' k = Some i \<longleftrightarrow>
            i < length (rows t') \<and>
            (\<exists>w. map_of (rows t' ! i) (the (primary_key t')) = Some w \<and> key_of w = k)"
      proof (cases "i < length (rows t)")
        case True
        have "primary_key_index t' k = Some i \<longleftrightarrow> primary_key_index t k = Some i"
        proof (cases "k = key_of v")
          case keq: True
          with v(2) have "primary_key_index t k = None" by auto
          with keq ix' True show ?thesis by simp
        next
          case False
          with ix' show ?thesis by simp
        qed
        with ix True Some pk t'(2) show ?thesis
          by (simp add: pk_index_consistent_def nth_append)
      next
        case False
        have no: "primary_key_index t k \<noteq> Some i"
          using ix False by (auto simp: pk_index_consistent_def)
        show ?thesis
        proof (cases "i = length (rows t)")
          case True
          with ix' no v(1) Some pk t'(2) show ?thesis by auto
        next
          case neq: False
          with False have "\<not> i < length (rows t')" using t'(2) by simp
          with ix' no neq show ?thesis by (auto split: if_splits)
        qed
      qed
    qed
    with rc' pk Some ne t'(1) show ?thesis by (simp add: table_ok_def)
  qed
qed


lemma dict_contains_rev: "map_of (rev u) c = None \<longleftrightarrow> \<not> dict_contains u c"
  by (simp add: dict_contains_def map_of_eq_None_iff)

lemma dict_update_untouched:
  "\<not> dict_contains u c \<Longrightarrow> map_of (dict_update d u) c = map_of d c"
  using dict_contains_rev [of u c] by (simp add: dict_update_map_of map_add_def)

lemma dict_update_keeps:
  "map_of d c \<noteq> None \<Longrightarrow> map_of (dict_update d u) c \<noteq> None"
  by (auto simp: dict_update_map_of map_add_def split: option.splits)

lemma pk_consistent_same:
  assumes "\<forall>k j. ix k = Some j \<longleftrightarrow>
             j < length rs \<and> (\<exists>v. map_of (rs ! j) p = Some v \<and> key_of v = k)"
    and "i < length rs" and "map_of new p = map_of (rs ! i) p"
  shows "\<forall>k j. ix k = Some j \<longleftrightarrow>
             j < length (rs[i := new])
             \<and> (\<exists>v. map_of (rs[i := new] ! j) p = Some v \<and> key_of v = k)"
proof (intro allI)
  fix k j
  show "ix k = Some j \<longleftrightarrow>
          j < length (rs[i := new])
          \<and> (\<exists>v. map_of (rs[i := new] ! j) p = Some v \<and> key_of v = k)"
    using assms by (cases "j = i") (simp_all add: nth_list_update)
qed

lemma pk_consistent_move:
  assumes c: "\<forall>k j. ix k = Some j \<longleftrightarrow>
             j < length rs \<and> (\<exists>v. map_of (rs ! j) p = Some v \<and> key_of v = k)"
    and i: "i < length rs" and ov: "map_of (rs ! i) p = Some ov" and nv: "map_of new p = Some nv"
    and free: "key_of nv = key_of ov \<or> key_of nv \<notin> dom ix"
  shows "\<forall>k j. ((ix(key_of ov := None))(key_of nv \<mapsto> i)) k = Some j \<longleftrightarrow>
             j < length (rs[i := new])
             \<and> (\<exists>v. map_of (rs[i := new] ! j) p = Some v \<and> key_of v = k)"
proof (intro allI)
  fix k j
  let ?ix' = "(ix(key_of ov := None))(key_of nv \<mapsto> i)"
  from c i ov have at_i: "ix (key_of ov) = Some i" by auto
  have only_i: "j' = i" if "j' < length rs" "map_of (rs ! j') p = Some w" "key_of w = key_of ov"
    for j' w
  proof -
    from c that have "ix (key_of ov) = Some j'" by auto
    with at_i show ?thesis by simp
  qed
  have no_new: "j' = i" if "j' < length rs" "map_of (rs ! j') p = Some w" "key_of w = key_of nv"
    for j' w
  proof -
    from c that have "ix (key_of nv) = Some j'" by auto
    then have "key_of nv \<in> dom ix" by auto
    with free have "key_of nv = key_of ov" by auto
    with that only_i show ?thesis by auto
  qed
  show "?ix' k = Some j \<longleftrightarrow>
          j < length (rs[i := new])
          \<and> (\<exists>v. map_of (rs[i := new] ! j) p = Some v \<and> key_of v = k)"
  proof (cases "j = i")
    case True
    have "?ix' k = Some i \<longleftrightarrow> k = key_of nv"
    proof (cases "k = key_of nv")
      case True
      then show ?thesis by simp
    next
      case False
      have "?ix' k \<noteq> Some i"
      proof (cases "k = key_of ov")
        case True
        with False show ?thesis by simp
      next
        case ko: False
        have "ix k \<noteq> Some i"
        proof
          assume "ix k = Some i"
          with c ov have "k = key_of ov" by auto
          with ko show False by simp
        qed
        with False ko show ?thesis by simp
      qed
      with False show ?thesis by simp
    qed
    with True i nv show ?thesis by auto
  next
    case False
    show ?thesis
    proof (cases "k = key_of nv")
      case True
      with False no_new show ?thesis by (auto simp: nth_list_update)
    next
      case kn: False
      show ?thesis
      proof (cases "k = key_of ov")
        case True
        with kn False only_i show ?thesis by (auto simp: nth_list_update)
      next
        case ko: False
        with kn have "?ix' k = ix k" by simp
        with c False show ?thesis by (simp add: nth_list_update)
      qed
    qed
  qed
qed


lemma update_pk_ok_touched:
  assumes "update_pk t u i old new = (Inr x, t1)" and "pk_truthy t"
    and "dict_contains u (the (primary_key t))"
  shows "\<exists>ov nv. map_of old (the (primary_key t)) = Some ov
           \<and> map_of new (the (primary_key t)) = Some nv
           \<and> (py_eq nv ov \<or> key_of nv \<notin> dom (primary_key_index t))
           \<and> t1 = t\<lparr>primary_key_index :=
                    ((primary_key_index t)(key_of ov := None))(key_of nv \<mapsto> i)\<rparr>"
proof (cases "map_of old (the (primary_key t))")
  case None
  with assms show ?thesis by (simp add: update_pk_def)
next
  case ov: (Some ov)
  show ?thesis
  proof (cases "map_of new (the (primary_key t))")
    case None
    with assms ov show ?thesis by (simp add: update_pk_def)
  next
    case nv: (Some nv)
    with assms ov show ?thesis
      by (simp add: update_pk_def split: if_splits)
  qed
qed

lemma table_ok_update_one:
  assumes ok: "table_ok t" and i: "i < length (rows t)" and old: "old = rows t ! i"
    and s: "update_one t u (i, old) = (Inr x, t')"
  shows "table_ok t'"
proof -
  let ?new = "dict_update old u"
  from s obtain t1 t2 where
    1: "update_pk t u i old ?new = (Inr (), t1)" and
    2: "update_unique t1 (unique_columns t1) u old ?new = (Inr (), t2)" and
    3: "t' = t2\<lparr>rows := (rows t2)[i := ?new]\<rparr>"
    by (auto simp: update_one_def Let_def split: sum.splits prod.splits if_splits)
  from update_pk_frame [OF 1] update_unique_frame [OF 2] 3 have
    f: "rows t' = (rows t)[i := ?new]" "columns t' = columns t"
       "primary_key_index t' = primary_key_index t1"
    by simp_all
  from f(2) have pk: "primary_key t' = primary_key t" and names: "column_names t' = column_names t"
    by (simp_all add: primary_key_def column_names_def)
  from ok have rc: "rows_complete t" by (simp add: table_ok_def)
  with i old have oldc: "\<forall>c\<in>set (column_names t). map_of old c \<noteq> None"
    by (simp add: rows_complete_def)
  then have newc: "\<forall>c\<in>set (column_names t). map_of ?new c \<noteq> None"
    by (simp add: dict_update_keeps)
  have rc': "rows_complete t'"
    unfolding rows_complete_def f(1) names
  proof
    fix row assume "row \<in> set ((rows t)[i := ?new])"
    then have "row = ?new \<or> row \<in> set (rows t)"
      using set_update_subset_insert [of "rows t" i ?new] by auto
    with newc rc show "\<forall>c\<in>set (column_names t). map_of row c \<noteq> None"
      by (auto simp: rows_complete_def)
  qed
  show ?thesis
  proof (cases "primary_key t")
    case None
    with rc' pk show ?thesis by (simp add: table_ok_def)
  next
    case (Some p)
    with ok have ne: "p \<noteq> []" and ix: "pk_index_consistent t" by (simp_all add: table_ok_def)
    from Some ne have truthy: "pk_truthy t" by (simp add: pk_truthy_def)
    from ix Some have c: "\<forall>k j. primary_key_index t k = Some j \<longleftrightarrow>
             j < length (rows t) \<and> (\<exists>v. map_of (rows t ! j) p = Some v \<and> key_of v = k)"
      by (simp add: pk_index_consistent_def)
    have "\<forall>k j. primary_key_index t1 k = Some j \<longleftrightarrow>
             j < length ((rows t)[i := ?new])
             \<and> (\<exists>v. map_of ((rows t)[i := ?new] ! j) p = Some v \<and> key_of v = k)"
    proof (cases "dict_contains u p")
      case False
      with 1 truthy Some have same: "t1 = t" by (simp add: update_pk_def)
      from False old have eq: "map_of ?new p = map_of (rows t ! i) p"
        by (simp add: dict_update_untouched)
      from pk_consistent_same [OF c i eq] show ?thesis unfolding same .
    next
      case True
      with update_pk_ok_touched [OF 1 truthy] Some obtain ov nv where
        m: "map_of old p = Some ov" "map_of ?new p = Some nv"
           "py_eq nv ov \<or> key_of nv \<notin> dom (primary_key_index t)"
           "t1 = t\<lparr>primary_key_index :=
                    ((primary_key_index t)(key_of ov := None))(key_of nv \<mapsto> i)\<rparr>"
        by auto
      from m(3) have free: "key_of nv = key_of ov \<or> key_of nv \<notin> dom (primary_key_index t)"
        by (auto simp: py_eq_key)
      from m(1) old have ovi: "map_of (rows t ! i) p = Some ov" by simp
      have "primary_key_index t1
              = ((primary_key_index t)(key_of ov := None))(key_of nv \<mapsto> i)"
        by (simp add: m(4))
      with pk_consistent_move [OF c i ovi m(2) free] show ?thesis by simp
    qed
    then have "pk_index_consistent t'"
      by (simp add: pk_index_consistent_def f(1,3) pk Some)
    with rc' pk Some ne show ?thesis by (simp add: table_ok_def)
  qed
qed

lemma table_ok_update_loop:
  "table_ok t \<Longrightarrow> distinct (map fst ms) \<Longrightarrow>
   \<forall>m\<in>set ms. fst m < length (rows t) \<and> rows t ! fst m = snd m \<Longrightarrow>
   update_loop t u ms n = (Inr k, t') \<Longrightarrow> table_ok t'"
proof (induction ms arbitrary: t n)
  case Nil
  then show ?case by simp
next
  case (Cons m ms)
  obtain i old where m: "m = (i, old)" by (cases m)
  obtain r t1 where s: "update_one t u m = (r, t1)" by (cases "update_one t u m")
  with Cons.prems(4) obtain x where r: "r = Inr x" by (cases r) auto
  with s Cons.prems(4) have l: "update_loop t1 u ms (n + 1) = (Inr k, t')" by simp
  from Cons.prems(3) m have i: "i < length (rows t)" "old = rows t ! i" by auto
  from table_ok_update_one [OF Cons.prems(1) i] s r m have ok1: "table_ok t1" by simp
  from s r m update_one_ok have rows1: "rows t1 = (rows t)[i := dict_update old u]" by blast
  from Cons.prems(2) m have dis: "distinct (map fst ms)" and notin: "i \<notin> fst ` set ms" by auto
  have "\<forall>m\<in>set ms. fst m < length (rows t1) \<and> rows t1 ! fst m = snd m"
  proof
    fix q assume q: "q \<in> set ms"
    with notin have "fst q \<noteq> i" by auto
    with q Cons.prems(3) rows1 show "fst q < length (rows t1) \<and> rows t1 ! fst q = snd q"
      by simp
  qed
  from Cons.IH [OF ok1 dis this l] show ?case .
qed

lemma table_ok_update:
  assumes "table_ok t" and "fst (update t u c) = Inr n"
  shows "table_ok (snd (update t u c))"
proof -
  from assms(2) have l: "update_loop t u (matching_rows t c) 0 = (Inr n, snd (update t u c))"
    by (metis prod.collapse update_def)
  have "\<forall>m\<in>set (matching_rows t c). fst m < length (rows t) \<and> rows t ! fst m = snd m"
    using matching_rows_iff [of _ _ t c] by auto
  from table_ok_update_loop [OF assms(1) matching_rows_distinct this l] show ?thesis .
qed

text \<open>The index that \<^verbatim>\<open>delete\<close> rebuilds, and the two deletions.\<close>

lemma consistent_keys:
  assumes "rows_complete t" and "primary_key t = Some p"
  shows "pk_index_consistent t \<longleftrightarrow>
           (\<forall>k j. primary_key_index t k = Some j \<longleftrightarrow>
              j < length (rows t) \<and> row_key p (rows t ! j) = k)"
proof -
  from assms(2) have "p \<in> set (column_names t)" by (rule primary_key_in_columns)
  with assms(1) have ex: "\<exists>v. map_of (rows t ! j) p = Some v" if "j < length (rows t)" for j
    using that by (auto simp: rows_complete_def)
  have "(j < length (rows t) \<and> (\<exists>v. map_of (rows t ! j) p = Some v \<and> key_of v = k))
      \<longleftrightarrow> (j < length (rows t) \<and> row_key p (rows t ! j) = k)" for j k
  proof (cases "j < length (rows t)")
    case True
    from ex [OF True] obtain v where "map_of (rows t ! j) p = Some v" by blast
    with True show ?thesis by (simp add: row_key_def)
  next
    case False
    then show ?thesis by simp
  qed
  with assms(2) show ?thesis by (simp add: pk_index_consistent_def)
qed

lemma consistent_distinct:
  assumes "rows_complete t" and "primary_key t = Some p" and "pk_index_consistent t"
  shows "distinct (map (row_key p) (rows t))"
proof -
  from assms have c: "\<forall>k j. primary_key_index t k = Some j \<longleftrightarrow>
              j < length (rows t) \<and> row_key p (rows t ! j) = k"
    by (simp add: consistent_keys)
  show ?thesis
    unfolding distinct_conv_nth
  proof (intro allI impI)
    fix i j
    assume i: "i < length (map (row_key p) (rows t))"
      and j: "j < length (map (row_key p) (rows t))" and ne: "i \<noteq> j"
    show "map (row_key p) (rows t) ! i \<noteq> map (row_key p) (rows t) ! j"
    proof
      assume "map (row_key p) (rows t) ! i = map (row_key p) (rows t) ! j"
      with i j have eq: "row_key p (rows t ! i) = row_key p (rows t ! j)" by simp
      from c i have "primary_key_index t (row_key p (rows t ! i)) = Some i" by simp
      moreover from c j eq have "primary_key_index t (row_key p (rows t ! i)) = Some j" by simp
      ultimately show False using ne by simp
    qed
  qed
qed

lemma rebuild_loop_ok:
  "\<forall>m\<in>set ps. map_of (snd m) (the (primary_key t)) \<noteq> None \<Longrightarrow>
   \<exists>t'. rebuild_loop t ps = (Inr (), t') \<and> rows t' = rows t \<and> columns t' = columns t
     \<and> primary_key_index t' =
         primary_key_index t
           ++ map_of (rev (map (\<lambda>m. (row_key (the (primary_key t)) (snd m), fst m)) ps))"
proof (induction ps arbitrary: t)
  case Nil
  then show ?case by simp
next
  case (Cons m ps)
  obtain i row where m: "m = (i, row)" by (cases m)
  let ?p = "the (primary_key t)"
  let ?f = "\<lambda>m. (row_key ?p (snd m), fst m)"
  from Cons.prems m obtain v where v: "map_of row ?p = Some v" by auto
  let ?t1 = "t\<lparr>primary_key_index := (primary_key_index t)(key_of v \<mapsto> i)\<rparr>"
  have e: "primary_key ?t1 = primary_key t" "rows ?t1 = rows t" "columns ?t1 = columns t"
    "primary_key_index ?t1 = (primary_key_index t)(key_of v \<mapsto> i)"
    by simp_all
  from Cons.prems have "\<forall>m\<in>set ps. map_of (snd m) (the (primary_key ?t1)) \<noteq> None" by simp
  from Cons.IH [OF this] obtain t' where
    t': "rebuild_loop ?t1 ps = (Inr (), t')" "rows t' = rows ?t1" "columns t' = columns ?t1"
        "primary_key_index t' =
           primary_key_index ?t1
             ++ map_of (rev (map (\<lambda>m. (row_key (the (primary_key ?t1)) (snd m), fst m)) ps))"
    by blast
  have "f m = (key_of v, i)" if "f = ?f" for f
    using that m v by (simp add: row_key_def)
  then have "map_of (rev (map ?f (m # ps))) = [key_of v \<mapsto> i] ++ map_of (rev (map ?f ps))"
    by simp
  then have "primary_key_index t ++ map_of (rev (map ?f (m # ps)))
        = (primary_key_index t)(key_of v \<mapsto> i) ++ map_of (rev (map ?f ps))"
    by (simp add: map_add_assoc [symmetric])
  with t' e have "primary_key_index t' = primary_key_index t ++ map_of (rev (map ?f (m # ps)))"
    by (simp only:)
  moreover from t'(1) m v have "rebuild_loop t (m # ps) = (Inr (), t')" by simp
  ultimately show ?case using t'(2,3) e(2,3) by (intro exI [of _ t']) simp
qed

lemma rebuild_index_consistent:
  assumes rc: "rows_complete t" and pk: "primary_key t = Some p"
    and dis: "distinct (map (row_key p) (rows t))"
  shows "\<exists>t'. rebuild_index t = (Inr (), t') \<and> rows t' = rows t \<and> columns t' = columns t
           \<and> pk_index_consistent t'"
proof -
  let ?t0 = "t\<lparr>primary_key_index := Map.empty\<rparr>"
  let ?ps = "zip [0..<length (rows t)] (rows t)"
  let ?f = "\<lambda>m. (row_key p (snd m), fst m)"
  let ?kv = "map ?f ?ps"
  from pk have col: "p \<in> set (column_names t)" by (rule primary_key_in_columns)
  have "\<forall>m\<in>set ?ps. map_of (snd m) (the (primary_key ?t0)) \<noteq> None"
    using rc col pk by (auto simp: rows_complete_def dest: set_zip_rightD)
  from rebuild_loop_ok [OF this] obtain t' where
    t': "rebuild_loop ?t0 ?ps = (Inr (), t')" "rows t' = rows ?t0" "columns t' = columns ?t0"
        "primary_key_index t' =
           primary_key_index ?t0
             ++ map_of (rev (map (\<lambda>m. (row_key (the (primary_key ?t0)) (snd m), fst m)) ?ps))"
    by blast
  from t'(2,3) have fr: "rows t' = rows t" "columns t' = columns t" by simp_all
  from t'(4) pk have ix: "primary_key_index t' = map_of (rev ?kv)" by simp
  have "map fst (map ?f qs) = map (row_key p) (map snd qs)" for qs :: "(nat \<times> pydict) list"
    by (simp add: comp_def)
  from this [of ?ps] have fst_kv: "map fst ?kv = map (row_key p) (rows t)" by simp
  have mem: "(k, j) \<in> set ?kv \<longleftrightarrow> j < length (rows t) \<and> row_key p (rows t ! j) = k" for k j
  proof
    assume "(k, j) \<in> set ?kv"
    then obtain a b where ab: "(a, b) \<in> set ?ps" "k = row_key p b" "j = a" by auto
    from ab(1) obtain n where "[0..<length (rows t)] ! n = a" "rows t ! n = b"
      "n < length (rows t)" by (auto simp: in_set_zip)
    with ab show "j < length (rows t) \<and> row_key p (rows t ! j) = k" by simp
  next
    assume a: "j < length (rows t) \<and> row_key p (rows t ! j) = k"
    then have "[0..<length (rows t)] ! j = j \<and> rows t ! j = rows t ! j
        \<and> j < length [0..<length (rows t)] \<and> j < length (rows t)" by simp
    then have "(j, rows t ! j) \<in> set ?ps" unfolding in_set_zip by (intro exI [of _ j]) simp
    then have "?f (j, rows t ! j) \<in> set ?kv" by (simp only: set_map) (rule imageI)
    with a show "(k, j) \<in> set ?kv" by simp
  qed
  have "distinct (map fst (rev ?kv))" using dis fst_kv by (simp add: rev_map [symmetric])
  then have "map_of (rev ?kv) k = Some j \<longleftrightarrow> (k, j) \<in> set (rev ?kv)" for k j
    by (rule map_of_eq_Some_iff)
  with mem ix have "\<forall>k j. primary_key_index t' k = Some j \<longleftrightarrow>
              j < length (rows t') \<and> row_key p (rows t' ! j) = k"
    by (simp add: fr)
  moreover from rc fr have rc': "rows_complete t'"
    by (simp add: rows_complete_def column_names_def)
  moreover from pk fr have "primary_key t' = Some p" by (simp add: primary_key_def)
  ultimately have "pk_index_consistent t'" by (simp add: consistent_keys)
  with t'(1) fr show ?thesis by (simp add: rebuild_index_def)
qed


lemma discard_unique_ok:
  "\<forall>c\<in>set cs. map_of row c \<noteq> None \<Longrightarrow>
   \<exists>t'. discard_unique t cs row = (Inr (), t') \<and> rows t' = rows t \<and> columns t' = columns t
     \<and> primary_key_index t' = primary_key_index t"
proof (induction cs arbitrary: t)
  case Nil
  then show ?case by simp
next
  case (Cons a cs)
  then obtain v where v: "map_of row a = Some v" by auto
  from Cons.prems have rest: "\<forall>c\<in>set cs. map_of row c \<noteq> None" by simp
  let ?t1 = "t\<lparr>unique_indexes := (unique_indexes t)(a := unique_indexes t a - {key_of v})\<rparr>"
  from Cons.IH [OF rest, of t] Cons.IH [OF rest, of ?t1] v
  show ?case by (cases "Some a \<noteq> primary_key t \<and> v \<noteq> PyNone") auto
qed

lemma distinct_map_remove_nth:
  assumes "distinct (map f rs)" and "i < length rs"
  shows "distinct (map f (take i rs @ drop (Suc i) rs))"
proof -
  from assms(2) have "rs = take i rs @ rs ! i # drop (Suc i) rs" by (rule id_take_nth_drop)
  then have "distinct (map f (take i rs @ rs ! i # drop (Suc i) rs))" using assms(1) by simp
  then show ?thesis by auto
qed

lemma rows_complete_subset:
  "rows_complete t \<Longrightarrow> set (rows t') \<subseteq> set (rows t) \<Longrightarrow> columns t' = columns t \<Longrightarrow>
   rows_complete t'"
  by (auto simp: rows_complete_def column_names_def)

lemma set_remove_nth: "set (take i rs @ drop (Suc i) rs) \<subseteq> set rs"
  by (auto dest: in_set_takeD in_set_dropD)

lemma table_ok_delete_by_primary_key:
  assumes ok: "table_ok t"
  shows "table_ok (snd (delete_by_primary_key t pk_value))"
proof (cases "pk_truthy t")
  case False
  with ok show ?thesis by (simp add: delete_by_primary_key_def)
next
  case True
  then obtain p where pk: "primary_key t = Some p" and ne: "p \<noteq> []"
    by (auto simp: pk_truthy_def split: option.splits)
  from ok pk have rc: "rows_complete t" and ix: "pk_index_consistent t"
    by (simp_all add: table_ok_def)
  show ?thesis
  proof (cases "primary_key_index t (key_of pk_value)")
    case None
    with True ok show ?thesis by (simp add: delete_by_primary_key_def)
  next
    case (Some i)
    with ix have i: "i < length (rows t)" by (auto simp: pk_index_consistent_def)
    then have "rows t ! i \<in> set (rows t)" by simp
    with rc unique_columns_subset [of t]
    have "\<forall>c\<in>set (unique_columns t). map_of (rows t ! i) c \<noteq> None"
      by (auto simp: rows_complete_def)
    from discard_unique_ok [OF this, of t] obtain t1 where
      t1: "discard_unique t (unique_columns t) (rows t ! i) = (Inr (), t1)"
          "rows t1 = rows t" "columns t1 = columns t"
      by blast
    let ?t1' = "t1\<lparr>primary_key_index := (primary_key_index t1)(key_of pk_value := None)\<rparr>"
    let ?t2 = "?t1'\<lparr>rows := take i (rows ?t1') @ drop (Suc i) (rows ?t1')\<rparr>"
    from i t1(2) have d: "del_row ?t1' i = (Inr (), ?t2)" by (simp add: del_row_def)
    have cols2: "columns ?t2 = columns t" using t1(3) by simp
    have rows2: "rows ?t2 = take i (rows t) @ drop (Suc i) (rows t)" using t1(2) by simp
    from cols2 pk have pk2: "primary_key ?t2 = Some p" by (simp add: primary_key_def)
    have "set (rows ?t2) \<subseteq> set (rows t)"
      unfolding rows2 by (rule set_remove_nth)
    from rows_complete_subset [OF rc this cols2] have rc2: "rows_complete ?t2" .
    from consistent_distinct [OF rc pk ix] i
    have "distinct (map (row_key p) (rows ?t2))"
      unfolding rows2 by (rule distinct_map_remove_nth)
    from rebuild_index_consistent [OF rc2 pk2 this] obtain t3 where
      t3: "rebuild_index ?t2 = (Inr (), t3)" "rows t3 = rows ?t2" "columns t3 = columns ?t2"
          "pk_index_consistent t3"
      by blast
    from t3(2,3) rc2 have rc3: "rows_complete t3"
      by (simp add: rows_complete_def column_names_def)
    from t3(3) cols2 pk have "primary_key t3 = Some p" by (simp add: primary_key_def)
    with rc3 t3(4) ne have "table_ok t3" by (simp add: table_ok_def)
    moreover have "delete_by_primary_key t pk_value = (Inr True, t3)"
      using True Some i t1(1) d t3(1) by (simp add: delete_by_primary_key_def)
    ultimately show ?thesis by simp
  qed
qed


lemma delete_one_ok:
  assumes rc: "rows_complete t" and i: "i < length (rows t)" and row: "rows t ! i = row"
    and key: "pk_truthy t \<longrightarrow> row_key (the (primary_key t)) row \<in> dom (primary_key_index t)"
  shows "\<exists>t'. delete_one t (i, row) = (Inr (), t') \<and> columns t' = columns t
           \<and> rows t' = take i (rows t) @ drop (Suc i) (rows t)
           \<and> primary_key_index t' =
               (if pk_truthy t
                then (primary_key_index t)(row_key (the (primary_key t)) row := None)
                else primary_key_index t)"
proof -
  from i row have mem: "row \<in> set (rows t)" by auto
  let ?t1 = "if pk_truthy t
             then t\<lparr>primary_key_index :=
                     (primary_key_index t)(row_key (the (primary_key t)) row := None)\<rparr>
             else t"
  have r1: "(if pk_truthy t then
               (case map_of row (the (primary_key t)) of
                  None \<Rightarrow> (Inl KeyError, t)
                | Some pk_value \<Rightarrow>
                    if key_of pk_value \<notin> dom (primary_key_index t) then (Inl KeyError, t)
                    else (Inr (), t\<lparr>primary_key_index :=
                                      (primary_key_index t)(key_of pk_value := None)\<rparr>))
             else (Inr (), t)) = (Inr (), ?t1)"
  proof (cases "pk_truthy t")
    case False
    then show ?thesis by simp
  next
    case True
    with rc mem pk_truthy_column [of t] obtain v where
      v: "map_of row (the (primary_key t)) = Some v" by (auto simp: rows_complete_def)
    then have "row_key (the (primary_key t)) row = key_of v" by (simp add: row_key_def)
    with True v key show ?thesis by simp
  qed
  have cols1: "columns ?t1 = columns t" and rows1: "rows ?t1 = rows t" by simp_all
  from rc mem unique_columns_subset [of t]
  have "\<forall>c\<in>set (unique_columns ?t1). map_of row c \<noteq> None"
    by (auto simp: rows_complete_def)
  from discard_unique_ok [OF this, of ?t1] obtain t2 where
    t2: "discard_unique ?t1 (unique_columns ?t1) row = (Inr (), t2)"
        "rows t2 = rows ?t1" "columns t2 = columns ?t1"
        "primary_key_index t2 = primary_key_index ?t1"
    by blast
  let ?t3 = "t2\<lparr>rows := take i (rows t2) @ drop (Suc i) (rows t2)\<rparr>"
  from i t2(2) rows1 have d: "del_row t2 i = (Inr (), ?t3)" by (simp add: del_row_def)
  have "delete_one t (i, row) = (Inr (), ?t3)"
    unfolding delete_one_def Let_def fst_conv snd_conv r1 using t2(1) d by simp
  moreover have "columns ?t3 = columns t" using t2(3) cols1 by simp
  moreover have "rows ?t3 = take i (rows t) @ drop (Suc i) (rows t)" using t2(2) rows1 by simp
  moreover have "primary_key_index ?t3 =
               (if pk_truthy t
                then (primary_key_index t)(row_key (the (primary_key t)) row := None)
                else primary_key_index t)"
    using t2(4) by simp
  ultimately show ?thesis by blast
qed

lemma delete_loop_ok:
  "rows_complete t \<Longrightarrow>
   distinct (map (row_key (the (primary_key t))) (rows t)) \<Longrightarrow>
   sorted_wrt (>) (map fst ms) \<Longrightarrow>
   \<forall>m\<in>set ms. fst m < length (rows t) \<and> rows t ! fst m = snd m \<Longrightarrow>
   \<forall>m\<in>set ms. row_key (the (primary_key t)) (snd m) \<in> dom (primary_key_index t) \<Longrightarrow>
   \<exists>t'. delete_loop t ms = (Inr (), t') \<and> columns t' = columns t
     \<and> rows_complete t' \<and> distinct (map (row_key (the (primary_key t))) (rows t'))"
proof (induction ms arbitrary: t)
  case Nil
  then show ?case by simp
next
  case (Cons m ms)
  obtain i row where m: "m = (i, row)" by (cases m)
  let ?p = "the (primary_key t)"
  from Cons.prems(4) m have i: "i < length (rows t)" and row: "rows t ! i = row" by auto
  from Cons.prems(5) m have "pk_truthy t \<longrightarrow> row_key ?p row \<in> dom (primary_key_index t)"
    by simp
  from delete_one_ok [OF Cons.prems(1) i row this] obtain t1 where
    t1: "delete_one t (i, row) = (Inr (), t1)" "columns t1 = columns t"
        "rows t1 = take i (rows t) @ drop (Suc i) (rows t)"
        "primary_key_index t1 =
           (if pk_truthy t then (primary_key_index t)(row_key ?p row := None)
            else primary_key_index t)"
    by blast
  from t1(2) have pk1: "primary_key t1 = primary_key t" by (simp add: primary_key_def)
  have "set (rows t1) \<subseteq> set (rows t)" unfolding t1(3) by (rule set_remove_nth)
  from rows_complete_subset [OF Cons.prems(1) this t1(2)] have rc1: "rows_complete t1" .
  from Cons.prems(2) i have dis1: "distinct (map (row_key (the (primary_key t1))) (rows t1))"
    unfolding t1(3) pk1 by (rule distinct_map_remove_nth)
  from Cons.prems(3) m have sorted: "sorted_wrt (>) (map fst ms)"
    and below: "\<forall>q\<in>set ms. fst q < i" by auto
  have pos: "\<forall>q\<in>set ms. fst q < length (rows t1) \<and> rows t1 ! fst q = snd q"
  proof
    fix q assume q: "q \<in> set ms"
    with below have lt: "fst q < i" by simp
    with i have "fst q < length (rows t1)" unfolding t1(3) by simp
    moreover from lt i have "rows t1 ! fst q = rows t ! fst q"
      unfolding t1(3) by (simp add: nth_append)
    moreover from q Cons.prems(4) have "rows t ! fst q = snd q" by simp
    ultimately show "fst q < length (rows t1) \<and> rows t1 ! fst q = snd q" by simp
  qed
  have keys: "\<forall>q\<in>set ms. row_key (the (primary_key t1)) (snd q) \<in> dom (primary_key_index t1)"
  proof
    fix q assume q: "q \<in> set ms"
    with below have lt: "fst q < i" by simp
    from q Cons.prems(4) have qr: "rows t ! fst q = snd q" "fst q < length (rows t)" by simp_all
    from q Cons.prems(5) have indom: "row_key ?p (snd q) \<in> dom (primary_key_index t)" by simp
    have "row_key ?p (snd q) \<noteq> row_key ?p row"
    proof
      assume "row_key ?p (snd q) = row_key ?p row"
      with qr row have "map (row_key ?p) (rows t) ! fst q = map (row_key ?p) (rows t) ! i"
        using i by simp
      moreover have "fst q < length (map (row_key ?p) (rows t))"
        "i < length (map (row_key ?p) (rows t))" using qr(2) i by simp_all
      ultimately have "fst q = i"
        using nth_eq_iff_index_eq [OF Cons.prems(2)] by blast
      with lt show False by simp
    qed
    with indom show "row_key (the (primary_key t1)) (snd q) \<in> dom (primary_key_index t1)"
      unfolding pk1 t1(4) by auto
  qed
  from Cons.IH [OF rc1 dis1 sorted pos keys] obtain t' where
    t': "delete_loop t1 ms = (Inr (), t')" "columns t' = columns t1" "rows_complete t'"
        "distinct (map (row_key (the (primary_key t1))) (rows t'))"
    by blast
  from t1(1) t'(1) m have "delete_loop t (m # ms) = (Inr (), t')" by simp
  with t'(2-4) t1(2) pk1 show ?case by simp
qed

lemma table_ok_delete:
  assumes ok: "table_ok t"
  shows "table_ok (snd (delete t c))"
proof -
  let ?ms = "matching_rows t c"
  let ?p = "the (primary_key t)"
  from ok have rc: "rows_complete t" by (simp add: table_ok_def)
  have pos: "\<forall>m\<in>set (rev ?ms). fst m < length (rows t) \<and> rows t ! fst m = snd m"
    using matching_rows_iff [of _ _ t c] by auto
  have sorted: "sorted_wrt (>) (map fst (rev ?ms))"
    using matching_rows_sorted [of t c] by (simp add: rev_map [symmetric] sorted_wrt_rev)
  show ?thesis
  proof (cases "primary_key t")
    case None
    then have nt: "\<not> pk_truthy t" by (simp add: pk_truthy_def)
    have step: "\<exists>t'. delete_loop t ms = (Inr (), t') \<and> columns t' = columns t \<and> rows_complete t'"
      if "rows_complete t" "sorted_wrt (>) (map fst ms)"
         "\<forall>m\<in>set ms. fst m < length (rows t) \<and> rows t ! fst m = snd m" "\<not> pk_truthy t"
      for t ms
      using that
    proof (induction ms arbitrary: t)
      case Nil
      then show ?case by simp
    next
      case (Cons m ms)
      obtain i row where m: "m = (i, row)" by (cases m)
      from Cons.prems(3) m have i: "i < length (rows t)" and row: "rows t ! i = row" by auto
      from Cons.prems(4) have "pk_truthy t \<longrightarrow> row_key (the (primary_key t)) row \<in> dom (primary_key_index t)"
        by simp
      from delete_one_ok [OF Cons.prems(1) i row this] obtain t1 where
        t1: "delete_one t (i, row) = (Inr (), t1)" "columns t1 = columns t"
            "rows t1 = take i (rows t) @ drop (Suc i) (rows t)"
        by blast
      have "set (rows t1) \<subseteq> set (rows t)" unfolding t1(3) by (rule set_remove_nth)
      from rows_complete_subset [OF Cons.prems(1) this t1(2)] have rc1: "rows_complete t1" .
      from t1(2) Cons.prems(4) have nt1: "\<not> pk_truthy t1"
        by (simp add: pk_truthy_def primary_key_def)
      from Cons.prems(2) m have sorted: "sorted_wrt (>) (map fst ms)"
        and below: "\<forall>q\<in>set ms. fst q < i" by auto
      have pos: "\<forall>q\<in>set ms. fst q < length (rows t1) \<and> rows t1 ! fst q = snd q"
      proof
        fix q assume q: "q \<in> set ms"
        with below have lt: "fst q < i" by simp
        with i have "fst q < length (rows t1)" unfolding t1(3) by simp
        moreover from lt i have "rows t1 ! fst q = rows t ! fst q"
          unfolding t1(3) by (simp add: nth_append)
        moreover from q Cons.prems(3) have "rows t ! fst q = snd q" by simp
        ultimately show "fst q < length (rows t1) \<and> rows t1 ! fst q = snd q" by simp
      qed
      from Cons.IH [OF rc1 sorted pos nt1] obtain t' where
        "delete_loop t1 ms = (Inr (), t')" "columns t' = columns t1" "rows_complete t'"
        by blast
      with t1(1,2) m show ?case by simp
    qed
    from step [OF rc sorted pos nt] obtain t1 where
      t1: "delete_loop t (rev ?ms) = (Inr (), t1)" "columns t1 = columns t" "rows_complete t1"
      by blast
    from t1(2) None have pk1: "primary_key t1 = None" by (simp add: primary_key_def)
    then have "\<not> pk_truthy t1" by (simp add: pk_truthy_def)
    with t1(1) have "delete t c = (Inr (length ?ms), t1)" by (simp add: delete_def Let_def)
    with t1(3) pk1 show ?thesis by (simp add: table_ok_def)
  next
    case (Some p)
    with ok have ne: "p \<noteq> []" and ix: "pk_index_consistent t" by (simp_all add: table_ok_def)
    from consistent_distinct [OF rc Some ix] Some
    have dis: "distinct (map (row_key ?p) (rows t))" by simp
    from ix rc Some have c: "\<forall>k j. primary_key_index t k = Some j \<longleftrightarrow>
              j < length (rows t) \<and> row_key p (rows t ! j) = k"
      by (simp add: consistent_keys)
    have keys: "\<forall>m\<in>set (rev ?ms). row_key ?p (snd m) \<in> dom (primary_key_index t)"
    proof
      fix m assume "m \<in> set (rev ?ms)"
      with pos have "fst m < length (rows t)" "rows t ! fst m = snd m" by auto
      with c have "primary_key_index t (row_key p (snd m)) = Some (fst m)" by auto
      with Some show "row_key ?p (snd m) \<in> dom (primary_key_index t)" by auto
    qed
    from delete_loop_ok [OF rc dis sorted pos keys] Some obtain t1 where
      t1: "delete_loop t (rev ?ms) = (Inr (), t1)" "columns t1 = columns t" "rows_complete t1"
          "distinct (map (row_key p) (rows t1))"
      by auto
    from t1(2) Some have pk1: "primary_key t1 = Some p" by (simp add: primary_key_def)
    with ne have truthy1: "pk_truthy t1" by (simp add: pk_truthy_def)
    from rebuild_index_consistent [OF t1(3) pk1 t1(4)] obtain t2 where
      t2: "rebuild_index t1 = (Inr (), t2)" "rows t2 = rows t1" "columns t2 = columns t1"
          "pk_index_consistent t2"
      by blast
    from t2(2,3) t1(3) have rc2: "rows_complete t2"
      by (simp add: rows_complete_def column_names_def)
    from t2(3) pk1 have "primary_key t2 = Some p" by (simp add: primary_key_def)
    with rc2 t2(4) ne have "table_ok t2" by (simp add: table_ok_def)
    moreover have "delete t c = (Inr (length ?ms), t2)"
      using t1(1) truthy1 t2(1) by (simp add: delete_def Let_def)
    ultimately show ?thesis by simp
  qed
qed

text \<open>
  On a well-formed table \<^verbatim>\<open>get_by_primary_key\<close> returns what a scan of the rows for the
  key finds.
\<close>

lemma get_by_primary_key_scan:
  assumes ok: "table_ok t" and pk: "primary_key t = Some p"
  shows "get_by_primary_key t k = Inr (find (\<lambda>row. row_key p row = key_of k) (rows t))"
proof -
  from ok pk have ne: "p \<noteq> []" and ix: "pk_index_consistent t" and rc: "rows_complete t"
    by (simp_all add: table_ok_def)
  from pk ne have truthy: "pk_truthy t" by (simp add: pk_truthy_def)
  from ix rc pk have c: "\<forall>k j. primary_key_index t k = Some j \<longleftrightarrow>
              j < length (rows t) \<and> row_key p (rows t ! j) = k"
    by (simp add: consistent_keys)
  show ?thesis
  proof (cases "primary_key_index t (key_of k)")
    case None
    have "\<not> (\<exists>row. row \<in> set (rows t) \<and> row_key p row = key_of k)"
    proof
      assume "\<exists>row. row \<in> set (rows t) \<and> row_key p row = key_of k"
      then obtain j where "j < length (rows t)" "row_key p (rows t ! j) = key_of k"
        by (auto simp: in_set_conv_nth)
      with c have "primary_key_index t (key_of k) = Some j" by simp
      with None show False by simp
    qed
    then have "find (\<lambda>row. row_key p row = key_of k) (rows t) = None"
      by (simp add: find_None_iff)
    with None truthy show ?thesis by (simp add: get_by_primary_key_def)
  next
    case (Some i)
    with c have i: "i < length (rows t)" "row_key p (rows t ! i) = key_of k" by simp_all
    have "\<forall>j<i. \<not> row_key p (rows t ! j) = key_of k"
    proof (intro allI impI notI)
      fix j assume "j < i" "row_key p (rows t ! j) = key_of k"
      with i c have "primary_key_index t (key_of k) = Some j" by simp
      with Some \<open>j < i\<close> show False by simp
    qed
    with i have "find (\<lambda>row. row_key p row = key_of k) (rows t) = Some (rows t ! i)"
      unfolding find_Some_iff by blast
    with Some truthy i show ?thesis by (simp add: get_by_primary_key_def)
  qed
qed

subsection \<open>Complete rows stay complete\<close>

text \<open>
  A new table has no rows, and every call of \<^verbatim>\<open>insert\<close>, \<^verbatim>\<open>update\<close>, \<^verbatim>\<open>delete\<close> and
  \<^verbatim>\<open>delete_by_primary_key\<close>, whether it returns or raises, leaves a table of complete rows
  a table of complete rows.
\<close>

lemma rows_complete_init: "rows_complete (Table_init n cs)"
  by (simp add: rows_complete_def Table_init_def)

lemma rows_complete_insert:
  assumes "rows_complete t"
  shows "rows_complete (snd (insert_row t row))"
proof (cases "validate_row t row")
  case (Inl e)
  with assms show ?thesis by (simp add: insert_row_def)
next
  case (Inr row')
  from insert_row_success [OF Inr] obtain t' where
    t': "insert_row t row = (Inr (), t')" "rows t' = rows t @ [row']" "columns t' = columns t"
    by blast
  with assms validate_row_complete [OF Inr] show ?thesis
    by (auto simp: rows_complete_def column_names_def)
qed

lemma rows_complete_update_loop:
  "rows_complete t \<Longrightarrow>
   \<forall>m\<in>set ms. \<forall>c\<in>set (column_names t). map_of (snd m) c \<noteq> None \<Longrightarrow>
   rows_complete (snd (update_loop t u ms n))"
proof (induction ms arbitrary: t n)
  case Nil
  then show ?case by simp
next
  case (Cons m ms)
  obtain i old where m: "m = (i, old)" by (cases m)
  obtain r t1 where s: "update_one t u m = (r, t1)" by (cases "update_one t u m")
  show ?case
  proof (cases r)
    case (Inl e)
    with s m update_one_fail [of t u i old e t1] have "rows t1 = rows t" "columns t1 = columns t"
      by simp_all
    with Cons.prems(1) have "rows_complete t1" by (simp add: rows_complete_def column_names_def)
    with s Inl show ?thesis by simp
  next
    case (Inr x)
    with s m update_one_ok [of t u i old x t1] have
      f: "rows t1 = (rows t)[i := dict_update old u]" "columns t1 = columns t" by simp_all
    then have names: "column_names t1 = column_names t" by (simp add: column_names_def)
    from Cons.prems(2) m have "\<forall>c\<in>set (column_names t). map_of (dict_update old u) c \<noteq> None"
      by (simp add: dict_update_keeps)
    moreover have "set (rows t1) \<subseteq> insert (dict_update old u) (set (rows t))"
      unfolding f(1) by (rule set_update_subset_insert)
    ultimately have rc1: "rows_complete t1"
      using Cons.prems(1) names by (auto simp: rows_complete_def)
    from Cons.prems(2) names
    have "\<forall>m\<in>set ms. \<forall>c\<in>set (column_names t1). map_of (snd m) c \<noteq> None" by simp
    from Cons.IH [OF rc1 this, of "n + 1"] s Inr show ?thesis by simp
  qed
qed

lemma rows_complete_update:
  assumes "rows_complete t"
  shows "rows_complete (snd (update t u c))"
proof -
  have "\<forall>m\<in>set (matching_rows t c). \<forall>k\<in>set (column_names t). map_of (snd m) k \<noteq> None"
  proof
    fix m assume "m \<in> set (matching_rows t c)"
    then have "snd m \<in> set (rows t)"
      using matching_rows_iff [of "fst m" "snd m" t c] by simp
    with assms show "\<forall>k\<in>set (column_names t). map_of (snd m) k \<noteq> None"
      by (simp add: rows_complete_def)
  qed
  from rows_complete_update_loop [OF assms this] show ?thesis by (simp add: update_def)
qed

lemma discard_unique_frame:
  "discard_unique t cs row = (r, t') \<Longrightarrow> rows t' = rows t \<and> columns t' = columns t"
proof (induction cs arbitrary: t)
  case Nil
  then show ?case by auto
next
  case (Cons a cs)
  show ?case
  proof (cases "Some a \<noteq> primary_key t")
    case False
    with Cons show ?thesis by simp
  next
    case True
    show ?thesis
    proof (cases "map_of row a")
      case None
      with True Cons.prems show ?thesis by auto
    next
      case (Some v)
      show ?thesis
      proof (cases "v = PyNone")
        case True
        with Some \<open>Some a \<noteq> primary_key t\<close> Cons show ?thesis by simp
      next
        case False
        let ?t1 = "t\<lparr>unique_indexes := (unique_indexes t)(a := unique_indexes t a - {key_of v})\<rparr>"
        from False Some True Cons.prems have "discard_unique ?t1 cs row = (r, t')" by simp
        from Cons.IH [OF this] show ?thesis by simp
      qed
    qed
  qed
qed

lemma del_row_frame:
  "del_row t i = (r, t') \<Longrightarrow> set (rows t') \<subseteq> set (rows t) \<and> columns t' = columns t"
  using set_remove_nth [of i "rows t"] by (auto simp: del_row_def split: if_splits)

lemma delete_one_frame:
  assumes "delete_one t m = (r, t')"
  shows "set (rows t') \<subseteq> set (rows t) \<and> columns t' = columns t"
proof -
  let ?r1 = "if pk_truthy t then
               (case map_of (snd m) (the (primary_key t)) of
                  None \<Rightarrow> (Inl KeyError, t)
                | Some pk_value \<Rightarrow>
                    if key_of pk_value \<notin> dom (primary_key_index t) then (Inl KeyError, t)
                    else (Inr (), t\<lparr>primary_key_index :=
                                      (primary_key_index t)(key_of pk_value := None)\<rparr>))
             else (Inr (), t)"
  obtain q1 t1 where r1: "?r1 = (q1, t1)" by (cases ?r1)
  then have f1: "rows t1 = rows t" "columns t1 = columns t"
    by (auto split: if_splits option.splits)
  from assms have d: "(case ?r1 of
           (Inl e, t1) \<Rightarrow> (Inl e, t1)
         | (Inr u, t1) \<Rightarrow>
             (case discard_unique t1 (unique_columns t1) (snd m) of
                (Inl e, t2) \<Rightarrow> (Inl e, t2)
              | (Inr u, t2) \<Rightarrow> del_row t2 (fst m))) = (r, t')"
    by (simp add: delete_one_def Let_def)
  show ?thesis
  proof (cases q1)
    case (Inl e)
    with d r1 have "t' = t1" by simp
    with f1 show ?thesis by simp
  next
    case (Inr x)
    obtain q2 t2 where 2: "discard_unique t1 (unique_columns t1) (snd m) = (q2, t2)"
      by (cases "discard_unique t1 (unique_columns t1) (snd m)")
    from discard_unique_frame [OF 2] f1 have f2: "rows t2 = rows t" "columns t2 = columns t"
      by simp_all
    show ?thesis
    proof (cases q2)
      case (Inl e)
      with d r1 Inr 2 have "t' = t2" by simp
      with f2 show ?thesis by simp
    next
      case q2: (Inr y)
      with d r1 Inr 2 have "del_row t2 (fst m) = (r, t')" by simp
      from del_row_frame [OF this] f2 show ?thesis by simp
    qed
  qed
qed

lemma delete_loop_frame:
  "delete_loop t ms = (r, t') \<Longrightarrow> set (rows t') \<subseteq> set (rows t) \<and> columns t' = columns t"
proof (induction ms arbitrary: t)
  case Nil
  then show ?case by auto
next
  case (Cons m ms)
  obtain r1 t1 where s: "delete_one t m = (r1, t1)" by (cases "delete_one t m")
  from delete_one_frame [OF s] have f: "set (rows t1) \<subseteq> set (rows t)" "columns t1 = columns t"
    by simp_all
  show ?case
  proof (cases r1)
    case (Inl e)
    with s Cons.prems f show ?thesis by auto
  next
    case (Inr x)
    with s Cons.prems have "delete_loop t1 ms = (r, t')" by simp
    from Cons.IH [OF this] f show ?thesis by auto
  qed
qed

lemma rebuild_loop_frame:
  "rebuild_loop t ps = (r, t') \<Longrightarrow> rows t' = rows t \<and> columns t' = columns t"
proof (induction ps arbitrary: t)
  case Nil
  then show ?case by auto
next
  case (Cons m ps)
  obtain i row where m: "m = (i, row)" by (cases m)
  show ?case
  proof (cases "map_of row (the (primary_key t))")
    case None
    with m Cons.prems show ?thesis by auto
  next
    case (Some v)
    with m Cons.prems have
      "rebuild_loop (t\<lparr>primary_key_index := (primary_key_index t)(key_of v \<mapsto> i)\<rparr>) ps = (r, t')"
      by simp
    from Cons.IH [OF this] show ?thesis by simp
  qed
qed

lemma rebuild_index_frame:
  "rebuild_index t = (r, t') \<Longrightarrow> rows t' = rows t \<and> columns t' = columns t"
  using rebuild_loop_frame [of "t\<lparr>primary_key_index := Map.empty\<rparr>"]
  by (auto simp: rebuild_index_def)

lemma rows_complete_delete:
  assumes "rows_complete t"
  shows "rows_complete (snd (delete t c))"
proof -
  obtain r1 t1 where l: "delete_loop t (rev (matching_rows t c)) = (r1, t1)"
    by (cases "delete_loop t (rev (matching_rows t c))")
  from delete_loop_frame [OF l] have f1: "set (rows t1) \<subseteq> set (rows t)" "columns t1 = columns t"
    by simp_all
  obtain r2 t2 where b: "rebuild_index t1 = (r2, t2)" by (cases "rebuild_index t1")
  from rebuild_index_frame [OF b] f1 have f2: "set (rows t2) \<subseteq> set (rows t)" "columns t2 = columns t"
    by simp_all
  have "snd (delete t c) = t1 \<or> snd (delete t c) = t2"
    using l b by (auto simp: delete_def Let_def split: sum.splits)
  with f1 f2 rows_complete_subset [OF assms] show ?thesis by auto
qed

lemma rows_complete_delete_by_primary_key:
  assumes "rows_complete t"
  shows "rows_complete (snd (delete_by_primary_key t v))"
proof -
  let ?d = "delete_by_primary_key t v"
  have "set (rows (snd ?d)) \<subseteq> set (rows t) \<and> columns (snd ?d) = columns t"
  proof (cases "pk_truthy t")
    case False
    then show ?thesis by (simp add: delete_by_primary_key_def)
  next
    case True
    show ?thesis
    proof (cases "primary_key_index t (key_of v)")
      case None
      with True show ?thesis by (simp add: delete_by_primary_key_def)
    next
      case (Some i)
      show ?thesis
      proof (cases "i < length (rows t)")
        case False
        with True Some show ?thesis by (simp add: delete_by_primary_key_def)
      next
        case i: True
        obtain r1 t1 where 1: "discard_unique t (unique_columns t) (rows t ! i) = (r1, t1)"
          by (cases "discard_unique t (unique_columns t) (rows t ! i)")
        from discard_unique_frame [OF 1] have f1: "rows t1 = rows t" "columns t1 = columns t"
          by simp_all
        let ?t1' = "t1\<lparr>primary_key_index := (primary_key_index t1)(key_of v := None)\<rparr>"
        obtain r2 t2 where 2: "del_row ?t1' i = (r2, t2)" by (cases "del_row ?t1' i")
        from del_row_frame [OF 2] f1 have f2: "set (rows t2) \<subseteq> set (rows t)" "columns t2 = columns t"
          by simp_all
        obtain r3 t3 where 3: "rebuild_index t2 = (r3, t3)" by (cases "rebuild_index t2")
        from rebuild_index_frame [OF 3] f2 have f3: "set (rows t3) \<subseteq> set (rows t)" "columns t3 = columns t"
          by simp_all
        have "snd ?d = t1 \<or> snd ?d = t2 \<or> snd ?d = t3"
          using True Some i 1 2 3
          by (auto simp: delete_by_primary_key_def split: sum.splits)
        with f1 f2 f3 show ?thesis by auto
      qed
    qed
  qed
  with rows_complete_subset [OF assms] show ?thesis by blast
qed

section \<open>The two joins agree on well-formed tables\<close>




section \<open>The indexes after a failing update\<close>

text \<open>
  Claim C2. The indexes are to be consistent with the rows between calls, failing calls
  included. On \<^verbatim>\<open>users\<close> with the rows \<^verbatim>\<open>{id: 1, email: "a"}\<close> and
  \<^verbatim>\<open>{id: 2, email: "b"}\<close>, the call
  \<^verbatim>\<open>update({"id": 3, "email": "a"}, lambda row: row["id"] == 2)\<close> raises the uniqueness
  violation on \<^verbatim>\<open>email\<close>. After it the row with \<^verbatim>\<open>id = 2\<close> is still stored and a
  scan finds it, \<^verbatim>\<open>get_by_primary_key(2)\<close> finds nothing, and \<^verbatim>\<open>get_by_primary_key(3)\<close>
  returns the row whose key is 2.
\<close>

theorem index_inconsistent_after_failed_update:
  "fst users_failed_update = Inl (UniqueViolation ''email'')
   \<and> select_where (snd users_failed_update) (id_is 2)
     = [[(''id'', PyInt 2), (''email'', PyStr ''b'')]]
   \<and> get_by_primary_key (snd users_failed_update) (PyInt 2) = Inr None
   \<and> select_where (snd users_failed_update) (id_is 3) = []
   \<and> get_by_primary_key (snd users_failed_update) (PyInt 3)
       = Inr (Some [(''id'', PyInt 2), (''email'', PyStr ''b'')])"
  by (simp add: table_defs engine_defs)

section \<open>Validation and mutation in update\<close>

text \<open>The errors of the three stages of one iteration of \<^verbatim>\<open>update\<close>.\<close>

lemma update_check_types_error:
  "update_check_types cs u new = Inl e \<Longrightarrow>
   e = KeyError \<or> (\<exists>c ty. e = ExpectsType c ty) \<or> (\<exists>c. e = CannotBeNull c)"
  by (induction cs) (auto split: if_splits option.splits)

lemma update_unique_error:
  "update_unique t cs u old new = (Inl e, t') \<Longrightarrow> e = KeyError \<or> (\<exists>c. e = UniqueViolation c)"
proof (induction cs arbitrary: t)
  case Nil
  then show ?case by simp
next
  case (Cons a cs)
  then show ?case
    by (auto simp: Let_def split: if_splits option.splits)
qed

lemma update_pk_violation:
  "update_pk t u i old new = (Inl e, t') \<Longrightarrow> t' = t"
  by (auto simp: update_pk_def split: if_splits option.splits)

text \<open>
  Claim C3. In \<^verbatim>\<open>update\<close> the validation of a row is to be complete before anything is
  changed for that row. The engine moves the primary-key entry before it checks the
  unique columns: the update of row 2 to \<^verbatim>\<open>{id: 3, email: "a"}\<close> fails with the
  uniqueness violation on \<^verbatim>\<open>email\<close>, the rows are as before, and the index has lost the
  key 2 and holds the key 3.
\<close>

theorem update_moves_key_before_unique_check:
  "fst users_failed_update = Inl (UniqueViolation ''email'')
   \<and> rows (snd users_failed_update) = rows users_two
   \<and> primary_key_index users_two (KNum 2) = Some 1
   \<and> primary_key_index users_two (KNum 3) = None
   \<and> primary_key_index (snd users_failed_update) (KNum 2) = None
   \<and> primary_key_index (snd users_failed_update) (KNum 3) = Some 1"
  by (simp add: table_defs engine_defs)

text \<open>
  A collision of the new primary key with another row, in contrast, is raised before
  anything is written: the iteration leaves the table as it found it.
\<close>

lemma update_one_pk_violation_unchanged:
  assumes "update_one t u m = (Inl (PrimaryKeyViolation v), t')"
  shows "t' = t"
proof -
  let ?new = "dict_update (snd m) u"
  from assms consider
      "t' = t"
    | "update_pk t u (fst m) (snd m) ?new = (Inl (PrimaryKeyViolation v), t')"
    | t1 where "update_unique t1 (unique_columns t1) u (snd m) ?new
                  = (Inl (PrimaryKeyViolation v), t')"
    by (auto simp: update_one_def Let_def split: sum.splits prod.splits if_splits)
  then show ?thesis
  proof cases
    case 1
    then show ?thesis .
  next
    case 2
    then show ?thesis by (rule update_pk_violation)
  next
    case 3
    from update_unique_error [OF this] show ?thesis by simp
  qed
qed

section \<open>Update stops at the first failure\<close>

text \<open>
  Claim C4, as the engine has it. \<^verbatim>\<open>update\<close> raises at the first matched row whose
  candidate fails a check. No count is returned; the table is left as the failing
  iteration left it; the matched rows before that row hold their merged candidates; the
  failing row and every row after it, matched or not, are as stored before the call.
  When no matched row fails, \<^verbatim>\<open>update\<close> returns the number of matched rows and every
  matched row holds its merged candidate.
\<close>

theorem update_stops_at_first_failure:
  "(\<forall>e. fst (update t u c) = Inl e \<longrightarrow>
      (\<exists>i<length (rows t). c (rows t ! i)
         \<and> (\<exists>t1. update_one t1 u (i, rows t ! i) = (Inl e, snd (update t u c)))
         \<and> length (rows (snd (update t u c))) = length (rows t)
         \<and> (\<forall>j<length (rows t).
               rows (snd (update t u c)) ! j =
                 (if j < i \<and> c (rows t ! j) then dict_update (rows t ! j) u else rows t ! j))))
   \<and> (\<forall>n. fst (update t u c) = Inr n \<longrightarrow>
         n = length (filter c (rows t))
         \<and> length (rows (snd (update t u c))) = length (rows t)
         \<and> (\<forall>j<length (rows t).
               rows (snd (update t u c)) ! j =
                 (if c (rows t ! j) then dict_update (rows t ! j) u else rows t ! j)))"
proof (rule conjI; intro allI impI)
  fix e assume f: "fst (update t u c) = Inl e"
  let ?ms = "matching_rows t c"
  let ?t' = "snd (update t u c)"
  from f have "update_loop t u ?ms 0 = (Inl e, ?t')"
    by (metis prod.collapse update_def)
  from update_loop_fail_split [OF this] obtain pre m post t1 where
    d: "?ms = pre @ m # post" "update_loop t u pre 0 = (Inr (0 + length pre), t1)"
       "update_one t1 u m = (Inl e, ?t')" by blast
  obtain i old where m: "m = (i, old)" by (cases m)
  from d(1) m have "(i, old) \<in> set ?ms" by simp
  then have i: "i < length (rows t)" "old = rows t ! i" "c (rows t ! i)"
    by (auto simp: matching_rows_iff)
  from matching_rows_sorted [of t c] d(1) m have
    before: "\<forall>p\<in>set pre. fst p < i" and after: "\<forall>q\<in>set post. i < fst q"
    by (auto simp: sorted_wrt_append)
  from matching_rows_distinct [of t c] d(1) have dpre: "distinct (map fst pre)" by simp
  from update_loop_ok [OF d(2) dpre] have
    pre: "length (rows t1) = length (rows t)"
         "\<forall>j. rows t1 ! j = (case map_of pre j of None \<Rightarrow> rows t ! j | Some r \<Rightarrow> dict_update r u)"
    by auto
  from update_one_fail d(3) m have same: "rows ?t' = rows t1" by blast
  have lookup: "map_of pre j = (if j < i \<and> c (rows t ! j) then Some (rows t ! j) else None)"
    if j: "j < length (rows t)" for j
  proof (cases "j < i \<and> c (rows t ! j)")
    case True
    with j have "(j, rows t ! j) \<in> set ?ms" by (simp add: matching_rows_iff)
    with d(1) m True after have "(j, rows t ! j) \<in> set pre" by auto
    with dpre True show ?thesis by simp
  next
    case False
    have "j \<notin> fst ` set pre"
    proof
      assume "j \<in> fst ` set pre"
      then obtain r where r: "(j, r) \<in> set pre" by auto
      with before have "j < i" by auto
      moreover from r d(1) have "(j, r) \<in> set ?ms" by simp
      then have "c (rows t ! j)" by (auto simp: matching_rows_iff)
      ultimately show False using False by simp
    qed
    then have "map_of pre j = None" by (simp add: map_of_eq_None_iff)
    with False show ?thesis by auto
  qed
  have rows: "\<forall>j<length (rows t). rows ?t' ! j =
                 (if j < i \<and> c (rows t ! j) then dict_update (rows t ! j) u else rows t ! j)"
    using pre(2) same lookup by simp
  from d(3) m i(2) have "\<exists>t1. update_one t1 u (i, rows t ! i) = (Inl e, ?t')" by auto
  with i rows same pre(1)
  show "\<exists>i<length (rows t). c (rows t ! i)
         \<and> (\<exists>t1. update_one t1 u (i, rows t ! i) = (Inl e, ?t'))
         \<and> length (rows ?t') = length (rows t)
         \<and> (\<forall>j<length (rows t).
               rows ?t' ! j =
                 (if j < i \<and> c (rows t ! j) then dict_update (rows t ! j) u else rows t ! j))"
    by auto
next
  fix n assume f: "fst (update t u c) = Inr n"
  let ?t' = "snd (update t u c)"
  from f have l: "update_loop t u (matching_rows t c) 0 = (Inr n, ?t')"
    by (metis prod.collapse update_def)
  from update_loop_ok [OF l matching_rows_distinct]
  show "n = length (filter c (rows t))
         \<and> length (rows ?t') = length (rows t)
         \<and> (\<forall>j<length (rows t).
               rows ?t' ! j =
                 (if c (rows t ! j) then dict_update (rows t ! j) u else rows t ! j))"
    by (simp add: matching_rows_length matching_rows_map_of)
qed

text \<open>
  The claim as stated fails on \<^verbatim>\<open>tags.update({"tag": "c", "note": "z"}, lambda row: True)\<close>:
  the first row collides with the tag of the third, the call raises and returns no count,
  and the third row, matched and valid on its own (the same call restricted to it returns
  1 and stores the note), is left untouched.
\<close>

theorem update_batch_aborts_counterexample:
  "fst (update tags_three [(''tag'', PyStr ''c''), (''note'', PyStr ''z'')] (\<lambda>row. True))
     = Inl (UniqueViolation ''tag'')
   \<and> rows (snd (update tags_three [(''tag'', PyStr ''c''), (''note'', PyStr ''z'')] (\<lambda>row. True)))
     = rows tags_three
   \<and> rows tags_three ! 2 = [(''id'', PyInt 3), (''tag'', PyStr ''c''), (''note'', PyStr ''n'')]
   \<and> fst (update tags_three [(''tag'', PyStr ''c''), (''note'', PyStr ''z'')] (id_is 3)) = Inr 1
   \<and> rows (snd (update tags_three [(''tag'', PyStr ''c''), (''note'', PyStr ''z'')] (id_is 3))) ! 2
     = [(''id'', PyInt 3), (''tag'', PyStr ''c''), (''note'', PyStr ''z'')]"
  by (simp add: table_defs engine_defs)

theorem update_stops_at_first_failure_witness:
  "fst (update tags_three [(''tag'', PyStr ''c''), (''note'', PyStr ''z'')] (\<lambda>row. True))
     = Inl (UniqueViolation ''tag'')
   \<and> length (rows (snd (update tags_three [(''tag'', PyStr ''c''), (''note'', PyStr ''z'')]
                          (\<lambda>row. True)))) = 3
   \<and> fst (update tags_three [(''tag'', PyStr ''c''), (''note'', PyStr ''z'')] (id_is 3)) = Inr 1
   \<and> length (filter (id_is 3) (rows tags_three)) = 1"
proof -
  let ?u = "[(''tag'', PyStr ''c''), (''note'', PyStr ''z'')]"
  have len: "length (rows tags_three) = 3"
    by (simp add: table_defs engine_defs)
  have f: "fst (update tags_three ?u (\<lambda>row. True)) = Inl (UniqueViolation ''tag'')"
    by (simp add: table_defs engine_defs)
  have g: "fst (update tags_three ?u (id_is 3)) = Inr 1"
    by (simp add: table_defs engine_defs)
  from f update_stops_at_first_failure [of tags_three ?u "\<lambda>row. True"]
  have "length (rows (snd (update tags_three ?u (\<lambda>row. True)))) = length (rows tags_three)"
    by blast
  moreover from g update_stops_at_first_failure [of tags_three ?u "id_is 3"]
  have "1 = length (filter (id_is 3) (rows tags_three))"
    by blast
  ultimately show ?thesis using f g len by simp
qed

section \<open>Insert is atomic\<close>



section \<open>Null primary keys\<close>

text \<open>
  Claim C6. A null primary key is to be rejected even when the not-null flag of the column
  is unset. In the engine \<^verbatim>\<open>accounts.insert({"owner": "x"})\<close> succeeds, the row is stored
  with \<^verbatim>\<open>id = None\<close> and found under the key \<^verbatim>\<open>None\<close>; an update of a key to \<^verbatim>\<open>None\<close>
  succeeds as well; and with the flag set, \<^verbatim>\<open>users.insert({"id": None, "email": "c"})\<close>
  still succeeds, since \<^verbatim>\<open>validate_row\<close> tests the flag for absent columns only.
\<close>

theorem null_primary_key_accepted:
  "fst (insert_row accounts_empty [(''owner'', PyStr ''x'')]) = Inr ()
   \<and> get_by_primary_key (snd (insert_row accounts_empty [(''owner'', PyStr ''x'')])) PyNone
       = Inr (Some [(''owner'', PyStr ''x''), (''id'', PyNone)])
   \<and> fst (update (snd (insert_row accounts_empty [(''id'', PyInt 1), (''owner'', PyStr ''x'')]))
             [(''id'', PyNone)] (\<lambda>row. True)) = Inr 1
   \<and> fst (insert_row users_two [(''id'', PyNone), (''email'', PyStr ''c'')]) = Inr ()"
  by (simp add: table_defs engine_defs)

section \<open>Type check\<close>

text \<open>What the \<^verbatim>\<open>isinstance\<close> chain rejects, type by type.\<close>

lemma type_mismatch_iff:
  "type_mismatch ty v \<longleftrightarrow>
     (case ty of
        INT_T \<Rightarrow> \<not> ((\<exists>i. v = PyInt i) \<or> (\<exists>b. v = PyBool b))
      | TEXT_T \<Rightarrow> \<not> (\<exists>s. v = PyStr s)
      | FLOAT_T \<Rightarrow> \<not> ((\<exists>i. v = PyInt i) \<or> (\<exists>q. v = PyFloat q) \<or> (\<exists>b. v = PyBool b))
      | BOOL_T \<Rightarrow> \<not> (\<exists>b. v = PyBool b))"
  by (cases ty; cases v) (simp_all add: type_mismatch_def)

text \<open>
  Claim C7. Every present non-null value must match the declared type of its column, and
  a Boolean supplied for an Integer column fails with a type mismatch. The type check
  of the engine lets a Boolean through for an Integer and for a Float column, on insert
  and on update: \<^verbatim>\<open>readings.insert({"n": True, "x": False})\<close> succeeds and stores the
  row, and \<^verbatim>\<open>update({"n": False}, ...)\<close> then changes it.
\<close>

theorem bool_accepted_for_int_column:
  "insert_row readings_empty [(''n'', PyBool True), (''x'', PyBool False)]
     = (Inr (), readings_empty\<lparr>rows := [[(''n'', PyBool True), (''x'', PyBool False)]]\<rparr>)
   \<and> fst (update (snd (insert_row readings_empty [(''n'', PyBool True), (''x'', PyBool False)]))
             [(''n'', PyBool False)] (\<lambda>row. True)) = Inr 1"
  by (simp add: table_defs engine_defs)

section \<open>What select_all shares with the table\<close>





section \<open>Projection on all columns\<close>

text \<open>
  Claim C9, as the engine has it. For a table whose rows have every declared column,
  \<^verbatim>\<open>select_columns(select_all(), column_names)\<close> succeeds and returns, row by row, the
  stored row restricted to the declared columns (the stored row itself when the table
  has no column or has a column named \<^verbatim>\<open>*\<close>); this is \<^verbatim>\<open>select_all()\<close> up to the order
  of keys when no stored row has an undeclared key. With an empty list, or a list that
  contains \<^verbatim>\<open>*\<close>, \<^verbatim>\<open>select_columns\<close> returns the rows it was given.
\<close>

theorem select_columns_all_names:
  "(rows_complete t \<longrightarrow>
      (\<exists>rs. select_columns t (select_all t) (column_names t) = Inr rs
         \<and> length rs = length (select_all t)
         \<and> (\<forall>i<length rs.
               map_of (rs ! i) =
                 (if column_names t = [] \<or> ''*'' \<in> set (column_names t)
                  then map_of (select_all t ! i)
                  else map_of (select_all t ! i) |` set (column_names t)))
         \<and> (no_extra_keys t \<longrightarrow> map map_of rs = map map_of (select_all t))))
   \<and> (cols = [] \<or> ''*'' \<in> set cols \<longrightarrow> select_columns t rs' cols = Inr rs')"
proof (rule conjI; intro impI)
  assume rc: "rows_complete t"
  show "\<exists>rs. select_columns t (select_all t) (column_names t) = Inr rs
         \<and> length rs = length (select_all t)
         \<and> (\<forall>i<length rs.
               map_of (rs ! i) =
                 (if column_names t = [] \<or> ''*'' \<in> set (column_names t)
                  then map_of (select_all t ! i)
                  else map_of (select_all t ! i) |` set (column_names t)))
         \<and> (no_extra_keys t \<longrightarrow> map map_of rs = map map_of (select_all t))"
  proof (cases "column_names t = [] \<or> ''*'' \<in> set (column_names t)")
    case True
    then have "select_columns t (select_all t) (column_names t) = Inr (select_all t)"
      by (simp add: select_columns_def)
    with True show ?thesis by simp
  next
    case False
    from rc have "\<forall>row\<in>set (rows t). \<forall>c\<in>set (column_names t). map_of row c \<noteq> None"
      by (simp add: rows_complete_def)
    from project_rows_ok [OF this] obtain ps where
      ps: "project_rows (column_names t) (rows t) = Inr ps" "length ps = length (rows t)"
          "\<forall>i<length (rows t). map_of (ps ! i) = map_of (rows t ! i) |` set (column_names t)"
      by blast
    have fu: "first_unknown (column_names t) (column_names t) = None"
      by (simp add: first_unknown_None)
    from False fu ps(1) have sel: "select_columns t (select_all t) (column_names t) = Inr ps"
      by (simp add: select_columns_def select_all_def)
    have "map map_of ps = map map_of (select_all t)" if ne: "no_extra_keys t"
    proof (rule nth_equalityI)
      show "length (map map_of ps) = length (map map_of (select_all t))"
        using ps(2) by (simp add: select_all_def)
    next
      fix i assume "i < length (map map_of ps)"
      then have i: "i < length (rows t)" using ps(2) by simp
      then have "rows t ! i \<in> set (rows t)" by simp
      with ne have "fst ` set (rows t ! i) \<subseteq> set (column_names t)"
        by (simp add: no_extra_keys_def)
      from restrict_map_keys [OF this] ps(3) i
      show "map map_of ps ! i = map map_of (select_all t) ! i"
        using ps(2) by (simp add: select_all_def)
    qed
    with sel ps(2,3) False show ?thesis by (simp add: select_all_def)
  qed
next
  assume "cols = [] \<or> ''*'' \<in> set cols"
  then show "select_columns t rs' cols = Inr rs'" by (simp add: select_columns_def)
qed

text \<open>
  The claim as stated fails for a row stored with an undeclared key: the projection on
  all column names drops \<^verbatim>\<open>nickname\<close>, which \<^verbatim>\<open>select_all\<close> returns.
\<close>

theorem select_columns_drops_extra_key_counterexample:
  "rows_complete accounts_extra
   \<and> select_all accounts_extra
       = [[(''id'', PyInt 1), (''owner'', PyStr ''x''), (''nickname'', PyStr ''y'')]]
   \<and> select_columns accounts_extra (select_all accounts_extra) (column_names accounts_extra)
       = Inr [[(''id'', PyInt 1), (''owner'', PyStr ''x'')]]
   \<and> map map_of [[(''id'', PyInt 1), (''owner'', PyStr ''x'')]]
       \<noteq> map map_of (select_all accounts_extra)"
proof -
  have s: "select_all accounts_extra
       = [[(''id'', PyInt 1), (''owner'', PyStr ''x''), (''nickname'', PyStr ''y'')]]"
    by (simp add: table_defs engine_defs)
  have c: "rows_complete accounts_extra"
    by (simp add: table_defs engine_defs)
  have p: "select_columns accounts_extra (select_all accounts_extra) (column_names accounts_extra)
       = Inr [[(''id'', PyInt 1), (''owner'', PyStr ''x'')]]"
    by (simp add: table_defs engine_defs)
  have "map_of [(''id'', PyInt 1), (''owner'', PyStr ''x'')] ''nickname''
       \<noteq> map_of [(''id'', PyInt 1), (''owner'', PyStr ''x''), (''nickname'', PyStr ''y'')]
            ''nickname''"
    by simp
  then have "map_of [(''id'', PyInt 1), (''owner'', PyStr ''x'')]
       \<noteq> map_of [(''id'', PyInt 1), (''owner'', PyStr ''x''), (''nickname'', PyStr ''y'')]"
    by metis
  with s have "map map_of [[(''id'', PyInt 1), (''owner'', PyStr ''x'')]]
       \<noteq> map map_of (select_all accounts_extra)"
    by simp
  with s c p show ?thesis by blast
qed

theorem select_columns_all_names_witness:
  "rows_complete users_two \<and> no_extra_keys users_two
   \<and> (\<exists>rs. select_columns users_two (select_all users_two) (column_names users_two) = Inr rs
         \<and> map map_of rs = map map_of (select_all users_two))
   \<and> select_columns users_two (select_all users_two) [''email'', ''*''] = Inr (select_all users_two)"
proof -
  have c: "rows_complete users_two" by (simp add: table_defs engine_defs)
  have n: "no_extra_keys users_two" by (simp add: table_defs engine_defs)
  have w: "[''email'', ''*''] = [] \<or> ''*'' \<in> set [''email'', ''*'']" by simp
  from c n w select_columns_all_names [of users_two "[''email'', ''*'']" "select_all users_two"]
  show ?thesis by blast
qed

section \<open>Undeclared keys\<close>

text \<open>
  Claim C10. Neither \<^verbatim>\<open>insert\<close> nor \<^verbatim>\<open>update\<close> checks the keys of the mapping it is
  given against the schema. For a key \<open>k\<close> that is no column of the table: adding
  \<open>k\<close> to the row of an \<^verbatim>\<open>insert\<close>, or to the assignments of an \<^verbatim>\<open>update\<close>, leaves
  the outcome of the call as it is without the key (the same success, the same error);
  a successful \<^verbatim>\<open>insert\<close> stores the value under \<open>k\<close> in the appended row, and a
  successful \<^verbatim>\<open>update\<close> stores it in every matched row.
\<close>

theorem undeclared_key_accepted_and_stored:
  assumes "k \<notin> set (column_names t)"
  shows "fst (insert_row t (dict_set row k v)) = fst (insert_row t row)
   \<and> (fst (insert_row t (dict_set row k v)) = Inr () \<longrightarrow>
        map_of (last (rows (snd (insert_row t (dict_set row k v))))) k = Some v)
   \<and> fst (update t (dict_set u k v) c) = fst (update t u c)
   \<and> (distinct (map fst u) \<longrightarrow>
        (\<forall>n. fst (update t (dict_set u k v) c) = Inr n \<longrightarrow>
           (\<forall>j<length (rows t). c (rows t ! j) \<longrightarrow>
              map_of (rows (snd (update t (dict_set u k v) c)) ! j) k = Some v)))"
proof (intro conjI impI allI)
  show "fst (insert_row t (dict_set row k v)) = fst (insert_row t row)"
    using assms by (rule insert_extra_key)
next
  assume "fst (insert_row t (dict_set row k v)) = Inr ()"
  with assms show "map_of (last (rows (snd (insert_row t (dict_set row k v))))) k = Some v"
    by (rule insert_extra_key)
next
  show "fst (update t (dict_set u k v) c) = fst (update t u c)"
    using assms by (rule update_extra_key_fst)
next
  fix n j
  assume "distinct (map fst u)" and "fst (update t (dict_set u k v) c) = Inr n"
    and "j < length (rows t)" and "c (rows t ! j)"
  then show "map_of (rows (snd (update t (dict_set u k v) c)) ! j) k = Some v"
    by (rule update_extra_key_stored)
qed

theorem undeclared_key_accepted_and_stored_witness:
  "''nickname'' \<notin> set (column_names accounts_empty)
   \<and> fst (insert_row accounts_empty
            (dict_set [(''id'', PyInt 1), (''owner'', PyStr ''x'')] ''nickname'' (PyStr ''y'')))
       = Inr ()
   \<and> map_of (last (rows (snd (insert_row accounts_empty
            (dict_set [(''id'', PyInt 1), (''owner'', PyStr ''x'')] ''nickname'' (PyStr ''y''))))))
         ''nickname'' = Some (PyStr ''y'')
   \<and> ''nickname'' \<notin> set (column_names accounts_one)
   \<and> fst (update accounts_one (dict_set [(''owner'', PyStr ''z'')] ''nickname'' (PyStr ''y''))
            (id_is 1)) = Inr 1
   \<and> map_of (rows (snd (update accounts_one
            (dict_set [(''owner'', PyStr ''z'')] ''nickname'' (PyStr ''y'')) (id_is 1))) ! 0)
         ''nickname'' = Some (PyStr ''y'')"
proof -
  let ?row = "[(''id'', PyInt 1), (''owner'', PyStr ''x'')]"
  let ?u = "[(''owner'', PyStr ''z'')]"
  have k1: "''nickname'' \<notin> set (column_names accounts_empty)"
    by (simp add: table_defs engine_defs)
  have k2: "''nickname'' \<notin> set (column_names accounts_one)"
    by (simp add: table_defs engine_defs)
  have i: "fst (insert_row accounts_empty (dict_set ?row ''nickname'' (PyStr ''y''))) = Inr ()"
    by (simp add: table_defs engine_defs)
  have u: "fst (update accounts_one (dict_set ?u ''nickname'' (PyStr ''y'')) (id_is 1)) = Inr 1"
    by (simp add: table_defs engine_defs)
  have m: "0 < length (rows accounts_one) \<and> id_is 1 (rows accounts_one ! 0)"
    by (simp add: table_defs engine_defs)
  have d: "distinct (map fst ?u)" by simp
  from undeclared_key_accepted_and_stored [OF k1, of ?row "PyStr ''y''"] i
  have s1: "map_of (last (rows (snd (insert_row accounts_empty
              (dict_set ?row ''nickname'' (PyStr ''y''))))))
            ''nickname'' = Some (PyStr ''y'')"
    by blast
  from undeclared_key_accepted_and_stored [OF k2, of _ "PyStr ''y''" ?u "id_is 1"] u d m
  have s2: "map_of (rows (snd (update accounts_one
              (dict_set ?u ''nickname'' (PyStr ''y'')) (id_is 1))) ! 0)
            ''nickname'' = Some (PyStr ''y'')"
    by blast
  from k1 k2 i u s1 s2 show ?thesis by blast
qed

end
